theory Spec2Isabelle
  imports Main
begin

section \<open>Data model\<close>

text \<open>
  Users and posts are MongoDB documents addressed by their \<open>_id\<close>. Ids are modelled as
  natural numbers (only equality between ids is ever used), the user collection as a map
  from ids to documents, and an array field as a list in the order of the array.
  Timestamps are milliseconds since the epoch.
\<close>

type_synonym uid = nat
type_synonym time = nat

datatype request_status = Pending | Accepted | Rejected

text \<open>
  Modelled from the spec: the schema of \<open>models/User.js\<close> is not among the sources.
  The spec gives \<open>friends\<close> (user ids) and \<open>friendRequests\<close>, an ordered list of
  \<open>{from: user id, status: pending|accepted|rejected}\<close>; the routes use exactly these two
  fields. Every other field of a user lives in the extension part of the record and is
  carried along untouched.
\<close>

record friend_request =
  request_from :: uid
  request_status :: request_status

record user =
  friends :: "uid list"
  friendRequests :: "friend_request list"

type_synonym 'a users = "uid \<rightharpoonup> 'a user_scheme"

text \<open>
  Every response other than success, named after its message, with its HTTP status.
  In the words of the spec: \<open>CannotRequestSelf\<close> is InvalidTarget, the 404 answers are
  NotFound, \<open>AlreadyFriendsWithUser\<close> and \<open>UsersAlreadyFriends\<close> are AlreadyFriends,
  \<open>RequestAlreadySent\<close> is DuplicateRequest (Conflict), \<open>OnlyMessageFriends\<close> is Forbidden.
\<close>

datatype error =
    CannotRequestSelf
  | UserNotFound
  | CurrentUserNotFound
  | AlreadyFriendsWithUser
  | RequestAlreadySent
  | RequestNotFound
  | RequestAlreadyProcessed
  | UsersAlreadyFriends
  | NotFriends
  | PostNotFound
  | RecipientNotFound
  | ValidationFailed
  | OnlyMessageFriends
  | ServerError

fun status_code :: "error \<Rightarrow> nat" where
  "status_code CannotRequestSelf = 400"
| "status_code UserNotFound = 404"
| "status_code CurrentUserNotFound = 404"
| "status_code AlreadyFriendsWithUser = 400"
| "status_code RequestAlreadySent = 400"
| "status_code RequestNotFound = 404"
| "status_code RequestAlreadyProcessed = 400"
| "status_code UsersAlreadyFriends = 400"
| "status_code NotFriends = 400"
| "status_code PostNotFound = 404"
| "status_code RecipientNotFound = 404"
| "status_code ValidationFailed = 400"
| "status_code OnlyMessageFriends = 403"
| "status_code ServerError = 500"

section \<open>Friend routes\<close>

text \<open>
  Each handler takes the authenticated user's id \<open>me\<close> (\<open>req.user._id\<close>), the path
  parameter \<open>userId\<close> and the user collection, and returns either the error it answers
  with or the collection after its saves. A handler that answers with an error has saved
  nothing. Reading a field of a document that \<open>findById\<close> did not find throws a
  TypeError, which the handler's \<open>catch\<close> turns into a 500. A save is taken
  to succeed and is modelled as writing the document that the handler holds over the
  stored one, the second save of a handler after the first. Mongoose writes only the
  modified paths; the two agree except in Accept with accepter = requester (a state
  that Send does not produce), where the handler holds two copies of one user: there
  both real saves apply, while the model keeps the second copy.
\<close>

definition sendRequest :: "uid \<Rightarrow> uid \<Rightarrow> 'a users \<Rightarrow> error + 'a users" where
  "sendRequest me userId db =
     (if userId = me then Inl CannotRequestSelf
      else case db userId of
        None \<Rightarrow> Inl UserNotFound
      | Some targetUser \<Rightarrow>
          (case db me of
             None \<Rightarrow> Inl ServerError
           | Some currentUser \<Rightarrow>
               if userId \<in> set (friends currentUser) then Inl AlreadyFriendsWithUser
               else (case find (\<lambda>request. request_from request = me) (friendRequests targetUser) of
                       Some existingRequest \<Rightarrow> Inl RequestAlreadySent
                     | None \<Rightarrow>
                         Inr (db(userId \<mapsto> targetUser\<lparr>friendRequests :=
                                friendRequests targetUser @
                                  [\<lparr>request_from = me, request_status = Pending\<rparr>]\<rparr>)))))"

definition acceptRequest :: "uid \<Rightarrow> uid \<Rightarrow> 'a users \<Rightarrow> error + 'a users" where
  "acceptRequest me userId db =
     (case db userId of
        None \<Rightarrow> Inl UserNotFound
      | Some requestingUser \<Rightarrow>
          (case db me of
             None \<Rightarrow> Inl CurrentUserNotFound
           | Some currentUser \<Rightarrow>
               (case find (\<lambda>request. request_from request = userId) (friendRequests currentUser) of
                  None \<Rightarrow> Inl RequestNotFound
                | Some friendRequest \<Rightarrow>
                    if request_status friendRequest \<noteq> Pending then Inl RequestAlreadyProcessed
                    else if userId \<in> set (friends currentUser) \<or> me \<in> set (friends requestingUser)
                    then Inl UsersAlreadyFriends
                    else Inr (db(me \<mapsto> currentUser\<lparr>
                                      friends := friends currentUser @ [userId],
                                      friendRequests :=
                                        filter (\<lambda>request. request_from request \<noteq> userId)
                                          (friendRequests currentUser)\<rparr>,
                                 userId \<mapsto> requestingUser\<lparr>
                                      friends := friends requestingUser @ [me]\<rparr>)))))"

text \<open>
  \<open>friendRequest.status = 'rejected'\<close> writes through the element that \<open>find\<close> returned:
  the first entry of the array that satisfies the predicate.
\<close>

fun update_first :: "('a \<Rightarrow> bool) \<Rightarrow> ('a \<Rightarrow> 'a) \<Rightarrow> 'a list \<Rightarrow> 'a list" where
  "update_first P f [] = []"
| "update_first P f (x # xs) = (if P x then f x # xs else x # update_first P f xs)"

definition rejectRequest :: "uid \<Rightarrow> uid \<Rightarrow> 'a users \<Rightarrow> error + 'a users" where
  "rejectRequest me userId db =
     (case db me of
        None \<Rightarrow> Inl ServerError
      | Some currentUser \<Rightarrow>
          (case find (\<lambda>request. request_from request = userId) (friendRequests currentUser) of
             None \<Rightarrow> Inl RequestNotFound
           | Some friendRequest \<Rightarrow>
               if request_status friendRequest \<noteq> Pending then Inl RequestAlreadyProcessed
               else Inr (db(me \<mapsto> currentUser\<lparr>friendRequests :=
                           update_first (\<lambda>request. request_from request = userId)
                             (\<lambda>request. request\<lparr>request_status := Rejected\<rparr>)
                             (friendRequests currentUser)\<rparr>))))"

definition removeFriend :: "uid \<Rightarrow> uid \<Rightarrow> 'a users \<Rightarrow> error + 'a users" where
  "removeFriend me userId db =
     (case db userId of
        None \<Rightarrow> Inl UserNotFound
      | Some friendUser \<Rightarrow>
          (case db me of
             None \<Rightarrow> Inl ServerError
           | Some currentUser \<Rightarrow>
               if userId \<notin> set (friends currentUser) then Inl NotFriends
               else Inr (db(me \<mapsto> currentUser\<lparr>friends :=
                                filter (\<lambda>i. i \<noteq> userId) (friends currentUser)\<rparr>,
                            userId \<mapsto> friendUser\<lparr>friends :=
                                filter (\<lambda>i. i \<noteq> me) (friends friendUser)\<rparr>))))"

definition cancelRequest :: "uid \<Rightarrow> uid \<Rightarrow> 'a users \<Rightarrow> error + 'a users" where
  "cancelRequest me userId db =
     (case db userId of
        None \<Rightarrow> Inl UserNotFound
      | Some targetUser \<Rightarrow>
          Inr (db(userId \<mapsto> targetUser\<lparr>friendRequests :=
                 filter (\<lambda>request. request_from request \<noteq> me) (friendRequests targetUser)\<rparr>)))"

text \<open>
  The five relationship operations as one step function, and friend-list symmetry over
  the users that exist.
\<close>

datatype relationship_op =
    Send uid uid
  | Accept uid uid
  | Reject uid uid
  | Cancel uid uid
  | Remove uid uid

fun perform :: "relationship_op \<Rightarrow> 'a users \<Rightarrow> error + 'a users" where
  "perform (Send me userId) db = sendRequest me userId db"
| "perform (Accept me userId) db = acceptRequest me userId db"
| "perform (Reject me userId) db = rejectRequest me userId db"
| "perform (Cancel me userId) db = cancelRequest me userId db"
| "perform (Remove me userId) db = removeFriend me userId db"

definition symmetric :: "'a users \<Rightarrow> bool" where
  "symmetric db =
     (\<forall>a b ua ub. db a = Some ua \<and> db b = Some ub \<longrightarrow>
        (b \<in> set (friends ua) \<longleftrightarrow> a \<in> set (friends ub)))"

text \<open>Concrete collections used by the scenarios below: users 1 and 2.\<close>

definition newcomer :: user where
  "newcomer = \<lparr>friends = [], friendRequests = []\<rparr>"

definition pending_from :: "uid \<Rightarrow> friend_request" where
  "pending_from u = \<lparr>request_from = u, request_status = Pending\<rparr>"

definition rejected_from :: "uid \<Rightarrow> friend_request" where
  "rejected_from u = \<lparr>request_from = u, request_status = Rejected\<rparr>"

definition strangers :: "unit users" where
  "strangers = [1 \<mapsto> newcomer, 2 \<mapsto> newcomer]"

definition requested :: "unit users" where
  "requested = [1 \<mapsto> newcomer, 2 \<mapsto> newcomer\<lparr>friendRequests := [pending_from 1]\<rparr>]"

definition crossed :: "unit users" where
  "crossed = [1 \<mapsto> newcomer\<lparr>friendRequests := [pending_from 2]\<rparr>,
              2 \<mapsto> newcomer\<lparr>friendRequests := [pending_from 1]\<rparr>]"

definition befriended :: "unit users" where
  "befriended = [1 \<mapsto> \<lparr>friends = [2], friendRequests = [pending_from 2]\<rparr>,
                 2 \<mapsto> \<lparr>friends = [1], friendRequests = []\<rparr>]"

definition acquainted :: "unit users" where
  "acquainted = [1 \<mapsto> \<lparr>friends = [2], friendRequests = []\<rparr>,
                 2 \<mapsto> \<lparr>friends = [1], friendRequests = []\<rparr>]"

definition turned_down :: "unit users" where
  "turned_down = [1 \<mapsto> newcomer, 2 \<mapsto> newcomer\<lparr>friendRequests := [rejected_from 1]\<rparr>]"

section \<open>Posts and likes\<close>

text \<open>
  Modelled from the spec: the schema of \<open>models/Post.js\<close> is not among the sources.
  The spec gives the status (draft, published, scheduled), \<open>scheduledFor\<close>,
  \<open>publishedAt\<close>, the view counter and the likes; \<open>routes/posts.js\<close> populates
  \<open>likes.user\<close>, so a like is the same sub-document as a comment's like in
  \<open>models/Comment.js\<close>: the user and the time of the like. Every other field of a post
  lives in the extension part of the record.
\<close>

datatype post_status = Draft | Published | Scheduled

record like =
  like_user :: uid
  like_createdAt :: time

record post =
  post_id :: nat
  author :: uid
  status :: post_status
  scheduledFor :: "time option"
  publishedAt :: "time option"
  views :: nat
  likes :: "like list"

text \<open>
  The post collection is the list of its documents, since the publisher enumerates it.
  \<open>findById\<close> is the first document with the id and \<open>save\<close> writes a document
  over the first document with its id; the database keeps ids unique.
\<close>

type_synonym 'a posts = "'a post_scheme list"

definition findById :: "nat \<Rightarrow> 'a posts \<Rightarrow> 'a post_scheme option" where
  "findById i db = find (\<lambda>q. post_id q = i) db"

definition save :: "'a post_scheme \<Rightarrow> 'a posts \<Rightarrow> 'a posts" where
  "save p db = update_first (\<lambda>q. post_id q = post_id p) (\<lambda>_. p) db"

text \<open>
  \<open>Array.prototype.findIndex\<close> answers \<open>-1\<close> when no element satisfies the
  predicate (here \<open>None\<close>), and \<open>splice(i, 1)\<close> removes the element at index \<open>i\<close>.
\<close>

fun findIndex :: "('a \<Rightarrow> bool) \<Rightarrow> 'a list \<Rightarrow> nat option" where
  "findIndex P [] = None"
| "findIndex P (x # xs) = (if P x then Some 0 else map_option Suc (findIndex P xs))"

definition splice1 :: "nat \<Rightarrow> 'a list \<Rightarrow> 'a list" where
  "splice1 i xs = take i xs @ drop (Suc i) xs"

text \<open>
  \<open>toggleLike\<close> of \<open>models/Comment.js\<close>, on the likes array: the answer and the array
  afterwards. \<open>now\<close> is the default of the new like's \<open>createdAt\<close>.
\<close>

definition toggleLike :: "time \<Rightarrow> uid \<Rightarrow> like list \<Rightarrow> bool \<times> like list" where
  "toggleLike now userId ls =
     (case findIndex (\<lambda>l. like_user l = userId) ls of
        Some likeIndex \<Rightarrow> (False, splice1 likeIndex ls)
      | None \<Rightarrow> (True, ls @ [\<lparr>like_user = userId, like_createdAt = now\<rparr>]))"

text \<open>
  Modelled from the spec: \<open>toggleLike\<close> of a post (\<open>models/Post.js\<close> is not among the
  sources). The spec calls it a flip that returns the new boolean state; it is taken to
  be the method of \<open>models/Comment.js\<close> above, which the comment route calls the same way.
\<close>

definition post_toggleLike :: "time \<Rightarrow> uid \<Rightarrow> 'a post_scheme \<Rightarrow> bool \<times> 'a post_scheme" where
  "post_toggleLike now userId p =
     (case toggleLike now userId (likes p) of (isLiked, ls) \<Rightarrow> (isLiked, p\<lparr>likes := ls\<rparr>))"

record like_response =
  isLiked :: bool
  likesCount :: nat

text \<open>\<open>POST /api/posts/:id/like\<close>; \<open>likesCount\<close> is the virtual \<open>likes.length\<close>.\<close>

definition likePost :: "time \<Rightarrow> uid \<Rightarrow> nat \<Rightarrow> 'a posts \<Rightarrow> error + (like_response \<times> 'a posts)" where
  "likePost now me i db =
     (case findById i db of
        None \<Rightarrow> Inl PostNotFound
      | Some p \<Rightarrow>
          (case post_toggleLike now me p of
             (liked, p') \<Rightarrow>
               Inr (\<lparr>isLiked = liked, likesCount = length (likes p')\<rparr>, save p' db)))"

text \<open>
  Modelled from the spec: \<open>incrementViews\<close> of a post (\<open>models/Post.js\<close> is not among
  the sources). The spec: the view counter is incremented on every request, with no
  deduplication per viewer. The method is taken to add one to \<open>views\<close> of the
  document in memory and to save it, so that the response, which sends the document
  afterwards, shows the incremented counter.
\<close>

definition incrementViews :: "'a post_scheme \<Rightarrow> 'a post_scheme" where
  "incrementViews p = p\<lparr>views := views p + 1\<rparr>"

text \<open>
  \<open>GET /api/posts/:id\<close>. The route has no \<open>protect\<close> middleware and its handler reads
  nothing of the request but the id: \<open>caller\<close> (the authenticated user, if any) is a
  parameter the handler never looks at. \<open>comments\<close> stands for what
  \<open>Comment.getCommentsForPost\<close> answers for the id; it is passed through to the response.
\<close>

definition getPost ::
  "uid option \<Rightarrow> nat \<Rightarrow> 'c \<Rightarrow> 'a posts \<Rightarrow> error + (('a post_scheme \<times> 'c) \<times> 'a posts)" where
  "getPost caller i comments db =
     (case findById i db of
        None \<Rightarrow> Inl PostNotFound
      | Some p \<Rightarrow> (let p' = incrementViews p in Inr ((p', comments), save p' db)))"

section \<open>Scheduled publisher\<close>

text \<open>
  Modelled from the spec: \<open>Post.getScheduledPostsToPublish\<close> (\<open>models/Post.js\<close> is not
  among the sources). The spec: all posts with status scheduled and
  \<open>scheduledFor <= now\<close>.
\<close>

definition is_due :: "time \<Rightarrow> 'a post_scheme \<Rightarrow> bool" where
  "is_due now p =
     (status p = Scheduled \<and> (case scheduledFor p of None \<Rightarrow> False | Some t \<Rightarrow> t \<le> now))"

definition getScheduledPostsToPublish :: "time \<Rightarrow> 'a posts \<Rightarrow> 'a posts" where
  "getScheduledPostsToPublish now db = filter (is_due now) db"

text \<open>
  The callback of \<open>cron.schedule\<close>. The wall clock is a parameter: \<open>clock k\<close> is its
  \<open>k\<close>-th reading within the tick, reading 0 by the query and one reading by each
  \<open>new Date()\<close> of the loop. Whether \<open>post.save()\<close> resolves is the parameter
  \<open>persists\<close>; when it rejects, the exception leaves the \<open>for\<close> loop, which lies inside
  the \<open>try\<close>, and the \<open>catch\<close> logs it.
\<close>

type_synonym clock = "nat \<Rightarrow> time"

datatype log_entry = PublishedScheduledPost nat | ErrorInScheduledPostPublisher

datatype 'a outcome = Completed 'a | Threw 'a

fun publish_loop ::
  "('a post_scheme \<Rightarrow> bool) \<Rightarrow> clock \<Rightarrow> nat \<Rightarrow> 'a posts \<Rightarrow> 'a posts \<times> log_entry list
     \<Rightarrow> ('a posts \<times> log_entry list) outcome" where
  "publish_loop persists clock k [] st = Completed st"
| "publish_loop persists clock k (p # postsToPublish) (db, log) =
     (let p' = p\<lparr>status := Published, publishedAt := Some (clock k)\<rparr> in
      if persists p'
      then publish_loop persists clock (Suc k) postsToPublish
             (save p' db, log @ [PublishedScheduledPost (post_id p')])
      else Threw (db, log))"

definition tick ::
  "('a post_scheme \<Rightarrow> bool) \<Rightarrow> clock \<Rightarrow> 'a posts \<Rightarrow> 'a posts \<times> log_entry list" where
  "tick persists clock db =
     (case publish_loop persists clock 1 (getScheduledPostsToPublish (clock 0) db) (db, []) of
        Completed st \<Rightarrow> st
      | Threw (db', log) \<Rightarrow> (db', log @ [ErrorInScheduledPostPublisher]))"

section \<open>Messages\<close>

text \<open>
  \<open>models/Message.js\<close>. Strings are lists of characters below 256; on these the length
  that \<open>isLength\<close> and \<open>maxlength\<close> count is the length of the list, and the white space
  that \<open>trim\<close> strips is tab, line feed, vertical tab, form feed, carriage return, space
  and the no-break space.
\<close>

record message =
  sender :: uid
  recipient :: uid
  content :: string
  read :: bool
  readAt :: "time option"
  createdAt :: time

definition js_whitespace :: "char \<Rightarrow> bool" where
  "js_whitespace c =
     (c \<in> {CHR 0x09, CHR 0x0A, CHR 0x0B, CHR 0x0C, CHR 0x0D, CHR 0x20, CHR 0xA0})"

definition trim :: "string \<Rightarrow> string" where
  "trim s = rev (dropWhile js_whitespace (rev (dropWhile js_whitespace s)))"

text \<open>
  \<open>Message.create\<close>: the schema trims the content, then requires it to be non-empty and
  at most 2000 characters; \<open>read\<close> defaults to false. \<open>None\<close> is the validation error
  it throws.
\<close>

definition Message_create :: "time \<Rightarrow> uid \<Rightarrow> uid \<Rightarrow> string \<Rightarrow> message option" where
  "Message_create now sender_id recipient_id c =
     (let c' = trim c in
      if c' = [] \<or> length c' > 2000 then None
      else Some \<lparr>sender = sender_id, recipient = recipient_id, content = c', read = False,
                  readAt = None, createdAt = now\<rparr>)"

text \<open>
  The validation chain on \<open>content\<close>, in its order: \<open>notEmpty\<close> on the value as sent,
  the sanitizer \<open>trim\<close>, then \<open>isLength({max: 2000})\<close> on the trimmed value. It answers
  whether no validator failed, and the sanitized value that the handler reads.
\<close>

definition validate_content :: "string \<Rightarrow> bool \<times> string" where
  "validate_content c = (let c' = trim c in (c \<noteq> [] \<and> length c' \<le> 2000, c'))"

text \<open>
  \<open>POST /api/messages/:userId\<close>. \<open>me\<close> and \<open>req_user\<close> are \<open>req.user._id\<close> and the
  user document \<open>req.user\<close> that the \<open>protect\<close> middleware puts on the request.
\<close>

definition sendMessage ::
  "time \<Rightarrow> uid \<Rightarrow> 'a user_scheme \<Rightarrow> uid \<Rightarrow> string \<Rightarrow> 'a users \<Rightarrow> message list
     \<Rightarrow> error + (message \<times> message list)" where
  "sendMessage now me req_user userId body_content users messages =
     (case validate_content body_content of
        (valid, c) \<Rightarrow>
          if \<not> valid then Inl ValidationFailed
          else (case users userId of
                  None \<Rightarrow> Inl RecipientNotFound
                | Some recipient_doc \<Rightarrow>
                    if \<not> (\<exists>friend \<in> set (friends req_user). friend = userId)
                    then Inl OnlyMessageFriends
                    else (case Message_create now me userId c of
                            None \<Rightarrow> Inl ServerError
                          | Some m \<Rightarrow> Inr (m, messages @ [m]))))"

text \<open>Concrete posts used by the scenarios below; the clock reads 100 at the tick.\<close>

definition essay :: post where
  "essay = \<lparr>post_id = 7, author = 1, status = Published, scheduledFor = None,
             publishedAt = Some 40, views = 0, likes = []\<rparr>"

definition draft_note :: post where
  "draft_note = \<lparr>post_id = 1, author = 1, status = Draft, scheduledFor = None,
                  publishedAt = None, views = 0, likes = []\<rparr>"

definition overdue :: post where
  "overdue = \<lparr>post_id = 2, author = 1, status = Scheduled, scheduledFor = Some 50,
               publishedAt = None, views = 0, likes = []\<rparr>"

definition upcoming :: post where
  "upcoming = \<lparr>post_id = 3, author = 2, status = Scheduled, scheduledFor = Some 500,
                publishedAt = None, views = 0, likes = []\<rparr>"

definition due_now :: post where
  "due_now = \<lparr>post_id = 4, author = 2, status = Scheduled, scheduledFor = Some 100,
               publishedAt = None, views = 0, likes = []\<rparr>"

definition late :: post where
  "late = \<lparr>post_id = 5, author = 1, status = Scheduled, scheduledFor = Some 60,
            publishedAt = None, views = 0, likes = []\<rparr>"

definition shelf :: "unit posts" where
  "shelf = [draft_note, overdue, upcoming, due_now, late]"

text \<open>A clock that advances by one between readings, and a database in which every save
  resolves but that of post 4.\<close>

definition ticking :: clock where
  "ticking k = 100 + k"

definition persists_unless_4 :: "post \<Rightarrow> bool" where
  "persists_unless_4 p = (post_id p \<noteq> 4)"

section \<open>Properties of the friend routes\<close>

lemmas scenario_defs =
  newcomer_def pending_from_def rejected_from_def strangers_def requested_def crossed_def
  befriended_def acquainted_def turned_down_def

lemmas post_scenario_defs =
  essay_def draft_note_def overdue_def upcoming_def due_now_def late_def shelf_def

lemma find_filter_out: "find P (filter (\<lambda>x. \<not> P x) xs) = None"
  by (induction xs) auto

lemma find_update_first:
  "find P xs = Some r \<Longrightarrow> P (f r) \<Longrightarrow> find P (update_first P f xs) = Some (f r)"
  by (induction xs) (auto split: if_splits)

lemma length_update_first: "length (update_first P f xs) = length xs"
  by (induction xs) simp_all

lemma find_in_set: "find P xs = Some r \<Longrightarrow> r \<in> set xs \<and> P r"
  by (induction xs) (auto split: if_splits)

subsection \<open>Accepting a request\<close>

text \<open>
  C1, as amended. Accept succeeds when the accepter and the requester are two existing
  users, the first entry from the requester on the accepter's record is pending, and
  neither user already has the other in the friends list. Afterwards the requester's id
  is the last entry of the accepter's friends, the accepter's id is the last entry of
  the requester's friends, no entry from the requester is left in the accepter's
  friendRequests, and no other user has changed.
\<close>

theorem accept_befriends:
  assumes "db me = Some currentUser" and "db userId = Some requestingUser"
    and "me \<noteq> userId"
    and "find (\<lambda>request. request_from request = userId) (friendRequests currentUser) = Some r"
    and "request_status r = Pending"
    and "userId \<notin> set (friends currentUser)" and "me \<notin> set (friends requestingUser)"
  shows "\<exists>db' currentUser' requestingUser'.
           acceptRequest me userId db = Inr db' \<and>
           db' me = Some currentUser' \<and> db' userId = Some requestingUser' \<and>
           friends currentUser' = friends currentUser @ [userId] \<and>
           friends requestingUser' = friends requestingUser @ [me] \<and>
           friendRequests requestingUser' = friendRequests requestingUser \<and>
           friendRequests currentUser' =
             filter (\<lambda>request. request_from request \<noteq> userId) (friendRequests currentUser) \<and>
           (\<forall>q \<in> set (friendRequests currentUser'). request_from q \<noteq> userId) \<and>
           (\<forall>u. u \<noteq> me \<and> u \<noteq> userId \<longrightarrow> db' u = db u)"
  using assms by (simp add: acceptRequest_def)

theorem accept_befriends_witness:
  "acceptRequest 2 1 requested = Inr acquainted"
proof -
  have "requested 2 = Some (newcomer\<lparr>friendRequests := [pending_from 1]\<rparr>)"
    and "requested 1 = Some newcomer"
    by (simp_all add: requested_def)
  with accept_befriends [of requested 2 "newcomer\<lparr>friendRequests := [pending_from 1]\<rparr>"
      1 newcomer "pending_from 1"]
  obtain db' currentUser' requestingUser' where
    "acceptRequest 2 1 requested = Inr db'"
    "db' 2 = Some currentUser'" "db' 1 = Some requestingUser'"
    "friends currentUser' = [1]" "friends requestingUser' = [2]"
    "friendRequests requestingUser' = []" "friendRequests currentUser' = []"
    "\<forall>u. u \<noteq> 2 \<and> u \<noteq> 1 \<longrightarrow> db' u = requested u"
    by (auto simp: newcomer_def pending_from_def)
  moreover from this have "db' = acquainted"
    by (auto simp: fun_eq_iff acquainted_def requested_def)
  ultimately show ?thesis by simp
qed

text \<open>
  C1 as stated fails. Users 1 and 2 send each other a request and 2 accepts: the request
  from 2 is still pending on the record of 1 and user 2 exists, yet when 1 accepts the
  answer is 400 "Users are already friends".
\<close>

theorem accept_refused_counterexample:
  "sendRequest 1 2 strangers = Inr requested \<and>
   sendRequest 2 1 requested = Inr crossed \<and>
   acceptRequest 2 1 crossed = Inr befriended \<and>
   befriended 1 = Some \<lparr>friends = [2], friendRequests = [pending_from 2]\<rparr> \<and>
   befriended 2 = Some \<lparr>friends = [1], friendRequests = []\<rparr> \<and>
   acceptRequest 1 2 befriended = Inl UsersAlreadyFriends"
  by (auto simp: sendRequest_def acceptRequest_def scenario_defs fun_eq_iff)

subsection \<open>Rejecting a request\<close>

text \<open>
  C2, as amended. When the first entry from the requester on the record of an existing
  accepter is pending, Reject succeeds and keeps that entry on the accepter's record,
  with the status rejected; nothing else changes. After the reject no new request from
  the same requester to the same target succeeds (for an existing requester who is
  neither the target nor has the target as a friend the answer is 400 "Friend request
  already sent"), and an accept on the same pair never succeeds: while the requester
  exists the answer is 400 "Friend request already processed", not a 404.
\<close>

theorem reject_keeps_request:
  assumes "db me = Some currentUser"
    and "find (\<lambda>request. request_from request = userId) (friendRequests currentUser) = Some r"
    and "request_status r = Pending"
  shows "let db' = db(me \<mapsto> currentUser\<lparr>friendRequests :=
                      update_first (\<lambda>request. request_from request = userId)
                        (\<lambda>request. request\<lparr>request_status := Rejected\<rparr>)
                        (friendRequests currentUser)\<rparr>)
         in rejectRequest me userId db = Inr db' \<and>
            (\<exists>currentUser'. db' me = Some currentUser' \<and>
               length (friendRequests currentUser') = length (friendRequests currentUser) \<and>
               find (\<lambda>request. request_from request = userId) (friendRequests currentUser') =
                 Some (r\<lparr>request_status := Rejected\<rparr>)) \<and>
            (\<forall>db''. sendRequest userId me db' \<noteq> Inr db'') \<and>
            (userId \<noteq> me \<and>
             (\<exists>requester. db userId = Some requester \<and> me \<notin> set (friends requester)) \<longrightarrow>
               sendRequest userId me db' = Inl RequestAlreadySent) \<and>
            (db userId \<noteq> None \<longrightarrow> acceptRequest me userId db' = Inl RequestAlreadyProcessed) \<and>
            (\<forall>db''. acceptRequest me userId db' \<noteq> Inr db'')"
proof -
  let ?reqs = "update_first (\<lambda>request. request_from request = userId)
                    (\<lambda>request. request\<lparr>request_status := Rejected\<rparr>) (friendRequests currentUser)"
  define db' where db': "db' = db(me \<mapsto> currentUser\<lparr>friendRequests := ?reqs\<rparr>)"
  have succeeds: "rejectRequest me userId db = Inr db'"
    using assms by (simp add: rejectRequest_def db')
  from assms(2) have fr: "request_from r = userId" by (auto dest: find_in_set)
  have f': "find (\<lambda>request. request_from request = userId) ?reqs
              = Some (r\<lparr>request_status := Rejected\<rparr>)"
    using assms(2) fr by (intro find_update_first) simp_all
  have len: "length ?reqs = length (friendRequests currentUser)"
    by (rule length_update_first)
  have me': "db' me = Some (currentUser\<lparr>friendRequests := ?reqs\<rparr>)" by (simp add: db')
  have kept: "\<exists>currentUser'. db' me = Some currentUser' \<and>
               length (friendRequests currentUser') = length (friendRequests currentUser) \<and>
               find (\<lambda>request. request_from request = userId) (friendRequests currentUser') =
                 Some (r\<lparr>request_status := Rejected\<rparr>)"
    using me' f' len by simp
  have no_resend: "\<forall>db''. sendRequest userId me db' \<noteq> Inr db''"
    using me' f' by (simp add: sendRequest_def split: option.splits)
  have duplicate: "userId \<noteq> me \<and>
      (\<exists>requester. db userId = Some requester \<and> me \<notin> set (friends requester))
            \<longrightarrow> sendRequest userId me db' = Inl RequestAlreadySent"
    using me' f' by (auto simp: sendRequest_def db')
  have processed: "db userId \<noteq> None \<longrightarrow> acceptRequest me userId db' = Inl RequestAlreadyProcessed"
    using me' f' by (auto simp: acceptRequest_def db')
  have no_accept: "\<forall>db''. acceptRequest me userId db' \<noteq> Inr db''"
    using me' f' by (simp add: acceptRequest_def split: option.splits)
  have "rejectRequest me userId db = Inr db' \<and>
            (\<exists>currentUser'. db' me = Some currentUser' \<and>
               length (friendRequests currentUser') = length (friendRequests currentUser) \<and>
               find (\<lambda>request. request_from request = userId) (friendRequests currentUser') =
                 Some (r\<lparr>request_status := Rejected\<rparr>)) \<and>
            (\<forall>db''. sendRequest userId me db' \<noteq> Inr db'') \<and>
            (userId \<noteq> me \<and>
             (\<exists>requester. db userId = Some requester \<and> me \<notin> set (friends requester)) \<longrightarrow>
               sendRequest userId me db' = Inl RequestAlreadySent) \<and>
            (db userId \<noteq> None \<longrightarrow> acceptRequest me userId db' = Inl RequestAlreadyProcessed) \<and>
            (\<forall>db''. acceptRequest me userId db' \<noteq> Inr db'')"
    by (intro conjI succeeds kept no_resend duplicate processed no_accept)
  then show ?thesis unfolding Let_def db' .
qed

theorem reject_keeps_request_witness:
  "rejectRequest 2 1 requested = Inr turned_down \<and>
   sendRequest 1 2 turned_down = Inl RequestAlreadySent \<and>
   acceptRequest 2 1 turned_down = Inl RequestAlreadyProcessed"
proof -
  have a: "requested 2 = Some (newcomer\<lparr>friendRequests := [pending_from 1]\<rparr>)"
    and b: "requested 1 = Some newcomer"
    by (simp_all add: requested_def)
  have f: "find (\<lambda>request. request_from request = 1)
             (friendRequests (newcomer\<lparr>friendRequests := [pending_from 1]\<rparr>)) = Some (pending_from 1)"
    and p: "request_status (pending_from 1) = Pending"
    by (simp_all add: pending_from_def)
  have e: "requested(2 \<mapsto> newcomer\<lparr>friendRequests := [pending_from 1]\<rparr>
             \<lparr>friendRequests := update_first (\<lambda>request. request_from request = 1)
                (\<lambda>request. request\<lparr>request_status := Rejected\<rparr>)
                (friendRequests (newcomer\<lparr>friendRequests := [pending_from 1]\<rparr>))\<rparr>) = turned_down"
    by (auto simp: scenario_defs fun_eq_iff)
  have n: "1 \<noteq> (2::nat) \<and> (\<exists>requester. requested 1 = Some requester \<and> 2 \<notin> set (friends requester))"
    using b by (simp add: newcomer_def)
  have x: "requested 1 \<noteq> None" using b by simp
  from reject_keeps_request [of requested 2 "newcomer\<lparr>friendRequests := [pending_from 1]\<rparr>" 1
      "pending_from 1", OF a f p]
  show ?thesis unfolding Let_def e using n x by blast
qed

text \<open>
  C2 as stated fails. User 2 rejects the pending request of user 1: the entry stays on
  the record of 2, the resend by 1 is answered 400 "Friend request already sent", and
  the accept by 2 is answered 400 "Friend request already processed".
\<close>

theorem reject_counterexample:
  "rejectRequest 2 1 requested = Inr turned_down \<and>
   turned_down 2 = Some \<lparr>friends = [], friendRequests = [rejected_from 1]\<rparr> \<and>
   sendRequest 1 2 turned_down = Inl RequestAlreadySent \<and>
   acceptRequest 2 1 turned_down = Inl RequestAlreadyProcessed \<and>
   status_code RequestAlreadyProcessed = 400"
  by (auto simp: sendRequest_def acceptRequest_def rejectRequest_def scenario_defs fun_eq_iff)

subsection \<open>Sending a request\<close>

text \<open>
  C3, as amended. For an authenticated requester (one whose user record exists) the
  checks of Send run in this order: the answer is 400 "You cannot send friend request to
  yourself" when requester and target are equal; otherwise 404 "User not found" when the
  target does not exist; otherwise 400 "Already friends with this user" when the target
  is in the requester's friends; otherwise 400 "Friend request already sent" when the
  target's record holds any entry from the requester, whatever its status; otherwise
  Send succeeds, and the only change is the entry \<open>{from: requester, status: pending}\<close>
  appended to the target's friendRequests.
\<close>

theorem send_request_outcomes:
  assumes "db me = Some currentUser"
  shows "(userId = me \<longrightarrow> sendRequest me userId db = Inl CannotRequestSelf) \<and>
         (userId \<noteq> me \<and> db userId = None \<longrightarrow> sendRequest me userId db = Inl UserNotFound) \<and>
         (\<forall>targetUser. userId \<noteq> me \<and> db userId = Some targetUser \<longrightarrow>
            (userId \<in> set (friends currentUser) \<longrightarrow>
               sendRequest me userId db = Inl AlreadyFriendsWithUser) \<and>
            (userId \<notin> set (friends currentUser) \<and>
             (\<exists>r \<in> set (friendRequests targetUser). request_from r = me) \<longrightarrow>
               sendRequest me userId db = Inl RequestAlreadySent) \<and>
            (userId \<notin> set (friends currentUser) \<and>
             (\<forall>r \<in> set (friendRequests targetUser). request_from r \<noteq> me) \<longrightarrow>
               sendRequest me userId db =
                 Inr (db(userId \<mapsto> targetUser\<lparr>friendRequests := friendRequests targetUser @
                        [\<lparr>request_from = me, request_status = Pending\<rparr>]\<rparr>))))"
  using assms
  by (auto simp: sendRequest_def find_None_iff split: option.splits dest: find_in_set)

theorem send_request_outcomes_witness:
  "sendRequest 1 1 strangers = Inl CannotRequestSelf \<and>
   sendRequest 1 3 strangers = Inl UserNotFound \<and>
   sendRequest 1 2 acquainted = Inl AlreadyFriendsWithUser \<and>
   sendRequest 1 2 requested = Inl RequestAlreadySent \<and>
   sendRequest 1 2 strangers = Inr requested"
proof -
  have e: "strangers(2 \<mapsto> newcomer\<lparr>friendRequests := [pending_from 1]\<rparr>) = requested"
    by (auto simp: scenario_defs fun_eq_iff)
  show ?thesis
    using send_request_outcomes [of strangers 1 newcomer 1]
      send_request_outcomes [of strangers 1 newcomer 3]
      send_request_outcomes [of acquainted 1 "\<lparr>friends = [2], friendRequests = []\<rparr>" 2]
      send_request_outcomes [of requested 1 newcomer 2]
      send_request_outcomes [of strangers 1 newcomer 2]
    unfolding e [symmetric]
    by (simp add: scenario_defs)
qed

text \<open>
  C3 as stated fails. The record of user 2 holds one entry from user 1, rejected and not
  pending; 1 and 2 are distinct existing users and are not friends; yet Send from 1 to 2
  does not succeed: the answer is 400 "Friend request already sent".
\<close>

theorem send_after_reject_counterexample:
  "turned_down 1 = Some \<lparr>friends = [], friendRequests = []\<rparr> \<and>
   turned_down 2 = Some \<lparr>friends = [], friendRequests = [rejected_from 1]\<rparr> \<and>
   request_status (rejected_from 1) = Rejected \<and>
   sendRequest 1 2 turned_down = Inl RequestAlreadySent"
  by (simp add: sendRequest_def scenario_defs)

subsection \<open>Cancelling a request\<close>

text \<open>
  C8, as amended. For every requester and existing target, Cancel succeeds, whether or
  not a request is present, and writes the target's friendRequests without the entries
  from the requester; cancelling again succeeds and leaves that state as it is. After a
  cancel, Send from the requester to the target is never refused as a duplicate, and it
  succeeds when the requester is an existing user other than the target who does not
  have the target in the friends list.
\<close>

theorem cancel_idempotent:
  assumes "db userId = Some targetUser"
  shows "let targetUser' = targetUser\<lparr>friendRequests :=
                 filter (\<lambda>request. request_from request \<noteq> me) (friendRequests targetUser)\<rparr>;
             db' = db(userId \<mapsto> targetUser')
         in cancelRequest me userId db = Inr db' \<and>
            cancelRequest me userId db' = Inr db' \<and>
            sendRequest me userId db' \<noteq> Inl RequestAlreadySent \<and>
            (me \<noteq> userId \<and> (\<exists>currentUser. db me = Some currentUser \<and>
                userId \<notin> set (friends currentUser)) \<longrightarrow>
              sendRequest me userId db' =
                Inr (db'(userId \<mapsto> targetUser'\<lparr>friendRequests :=
                       friendRequests targetUser' @
                         [\<lparr>request_from = me, request_status = Pending\<rparr>]\<rparr>)))"
proof -
  let ?t1 = "targetUser\<lparr>friendRequests :=
               filter (\<lambda>request. request_from request \<noteq> me) (friendRequests targetUser)\<rparr>"
  let ?db1 = "db(userId \<mapsto> ?t1)"
  have c1: "cancelRequest me userId db = Inr ?db1"
    using assms by (simp add: cancelRequest_def)
  have c2: "cancelRequest me userId ?db1 = Inr ?db1"
    by (simp add: cancelRequest_def)
  have nf: "find (\<lambda>request. request_from request = me) (friendRequests ?t1) = None"
    by (simp add: find_None_iff)
  have s1: "sendRequest me userId ?db1 \<noteq> Inl RequestAlreadySent"
    using nf by (simp add: sendRequest_def split: option.splits)
  have s2: "me \<noteq> userId \<and> (\<exists>currentUser. db me = Some currentUser \<and>
                userId \<notin> set (friends currentUser)) \<longrightarrow>
              sendRequest me userId ?db1 =
                Inr (?db1(userId \<mapsto> ?t1\<lparr>friendRequests := friendRequests ?t1 @
                         [\<lparr>request_from = me, request_status = Pending\<rparr>]\<rparr>))"
    using nf by (auto simp: sendRequest_def)
  show ?thesis
    unfolding Let_def using c1 c2 s1 s2 by blast
qed

theorem cancel_idempotent_witness:
  "cancelRequest 1 2 requested = Inr strangers \<and>
   cancelRequest 1 2 strangers = Inr strangers \<and>
   sendRequest 1 2 strangers = Inr requested"
proof -
  have t: "requested 2 = Some (newcomer\<lparr>friendRequests := [pending_from 1]\<rparr>)"
    by (simp add: requested_def)
  have m: "requested 1 = Some newcomer"
    by (simp add: requested_def)
  have e: "requested(2 \<mapsto> newcomer) = strangers"
    by (auto simp: scenario_defs fun_eq_iff)
  have e2: "strangers(2 \<mapsto> newcomer\<lparr>friendRequests := [pending_from 1]\<rparr>) = requested"
    by (auto simp: scenario_defs fun_eq_iff)
  have "cancelRequest 1 2 requested = Inr (requested(2 \<mapsto> newcomer)) \<and>
        cancelRequest 1 2 (requested(2 \<mapsto> newcomer)) = Inr (requested(2 \<mapsto> newcomer)) \<and>
        sendRequest 1 2 (requested(2 \<mapsto> newcomer)) =
          Inr ((requested(2 \<mapsto> newcomer))(2 \<mapsto> newcomer\<lparr>friendRequests :=
                 friendRequests newcomer @ [\<lparr>request_from = 1, request_status = Pending\<rparr>]\<rparr>))"
    using cancel_idempotent [of requested 2 "newcomer\<lparr>friendRequests := [pending_from 1]\<rparr>" 1] t m
    by (simp add: Let_def newcomer_def pending_from_def)
  then show ?thesis
    unfolding e using e2 by (simp add: newcomer_def pending_from_def)
qed

text \<open>
  C8 as stated fails. Users 1 and 2 send each other a request and 2 accepts the one
  from 1. User 2 then cancels the request to 1, which succeeds, and sends it again: the
  answer is 400 "Already friends with this user".
\<close>

theorem cancel_resend_counterexample:
  "sendRequest 1 2 strangers = Inr requested \<and>
   sendRequest 2 1 requested = Inr crossed \<and>
   acceptRequest 2 1 crossed = Inr befriended \<and>
   cancelRequest 2 1 befriended = Inr acquainted \<and>
   sendRequest 2 1 acquainted = Inl AlreadyFriendsWithUser"
  by (auto simp: sendRequest_def acceptRequest_def cancelRequest_def scenario_defs fun_eq_iff)

subsection \<open>Symmetry of the friend lists\<close>

lemma symmetric_same_friends:
  assumes same: "\<And>u d. db' u = Some d \<Longrightarrow> \<exists>d0. db u = Some d0 \<and> friends d0 = friends d"
    and sym: "symmetric db"
  shows "symmetric db'"
  unfolding symmetric_def
proof (intro allI impI, elim conjE)
  fix a b ua ub
  assume "db' a = Some ua" and "db' b = Some ub"
  then obtain a0 b0 where "db a = Some a0" "friends a0 = friends ua"
    and "db b = Some b0" "friends b0 = friends ub"
    using same by blast
  with sym show "b \<in> set (friends ua) \<longleftrightarrow> a \<in> set (friends ub)"
    unfolding symmetric_def by metis
qed

lemma symmetric_send:
  assumes "sendRequest me userId db = Inr db'" and "symmetric db"
  shows "symmetric db'"
proof (rule symmetric_same_friends [OF _ assms(2)])
  fix u d assume "db' u = Some d"
  with assms(1) show "\<exists>d0. db u = Some d0 \<and> friends d0 = friends d"
    unfolding sendRequest_def by (auto split: if_splits option.splits)
qed

lemma symmetric_reject:
  assumes "rejectRequest me userId db = Inr db'" and "symmetric db"
  shows "symmetric db'"
proof (rule symmetric_same_friends [OF _ assms(2)])
  fix u d assume "db' u = Some d"
  with assms(1) show "\<exists>d0. db u = Some d0 \<and> friends d0 = friends d"
    unfolding rejectRequest_def by (auto split: if_splits option.splits)
qed

lemma symmetric_cancel:
  assumes "cancelRequest me userId db = Inr db'" and "symmetric db"
  shows "symmetric db'"
proof (rule symmetric_same_friends [OF _ assms(2)])
  fix u d assume "db' u = Some d"
  with assms(1) show "\<exists>d0. db u = Some d0 \<and> friends d0 = friends d"
    unfolding cancelRequest_def by (auto split: if_splits option.splits)
qed

lemma friends_after_accept:
  assumes "acceptRequest me userId db = Inr db'" and "db' u = Some d"
  shows "\<exists>d0. db u = Some d0 \<and>
           set (friends d) = set (friends d0) \<union> (if u = me then {userId} else {})
                               \<union> (if u = userId then {me} else {})"
proof -
  from assms(1) obtain cu ru where cu: "db me = Some cu" and ru: "db userId = Some ru"
    and db': "db' = db(me \<mapsto> cu\<lparr>friends := friends cu @ [userId],
                  friendRequests :=
                    filter (\<lambda>request. request_from request \<noteq> userId) (friendRequests cu)\<rparr>,
                userId \<mapsto> ru\<lparr>friends := friends ru @ [me]\<rparr>)"
    unfolding acceptRequest_def by (simp split: option.splits if_splits)
  show ?thesis
  proof (cases "u = userId")
    case True
    with assms(2) ru db' show ?thesis by auto
  next
    case False
    with assms(2) cu db' show ?thesis by (cases "u = me") auto
  qed
qed

lemma friends_after_remove:
  assumes "removeFriend me userId db = Inr db'" and "db' u = Some d"
  shows "\<exists>d0. db u = Some d0 \<and>
           set (friends d) = set (friends d0) - (if u = me then {userId} else {})
                               - (if u = userId then {me} else {})"
proof -
  from assms(1) obtain cu fu where cu: "db me = Some cu" and fu: "db userId = Some fu"
    and db': "db' = db(me \<mapsto> cu\<lparr>friends := filter (\<lambda>i. i \<noteq> userId) (friends cu)\<rparr>,
                userId \<mapsto> fu\<lparr>friends := filter (\<lambda>i. i \<noteq> me) (friends fu)\<rparr>)"
    unfolding removeFriend_def by (simp split: option.splits if_splits)
  show ?thesis
  proof (cases "u = userId")
    case True
    with assms(2) fu db' show ?thesis by auto
  next
    case False
    with assms(2) cu db' show ?thesis by (cases "u = me") auto
  qed
qed

lemma symmetric_accept:
  assumes "acceptRequest me userId db = Inr db'" and "symmetric db"
  shows "symmetric db'"
  unfolding symmetric_def
proof (intro allI impI, elim conjE)
  fix a b ua ub
  assume a: "db' a = Some ua" and b: "db' b = Some ub"
  from friends_after_accept [OF assms(1) a] obtain a0 where a0: "db a = Some a0"
    and fa: "set (friends ua) = set (friends a0) \<union> (if a = me then {userId} else {})
                               \<union> (if a = userId then {me} else {})" by blast
  from friends_after_accept [OF assms(1) b] obtain b0 where b0: "db b = Some b0"
    and fb: "set (friends ub) = set (friends b0) \<union> (if b = me then {userId} else {})
                               \<union> (if b = userId then {me} else {})" by blast
  from assms(2) a0 b0 have "b \<in> set (friends a0) \<longleftrightarrow> a \<in> set (friends b0)"
    unfolding symmetric_def by blast
  with fa fb show "b \<in> set (friends ua) \<longleftrightarrow> a \<in> set (friends ub)"
    by (simp split: if_splits) blast?
qed

lemma symmetric_remove:
  assumes "removeFriend me userId db = Inr db'" and "symmetric db"
  shows "symmetric db'"
  unfolding symmetric_def
proof (intro allI impI, elim conjE)
  fix a b ua ub
  assume a: "db' a = Some ua" and b: "db' b = Some ub"
  from friends_after_remove [OF assms(1) a] obtain a0 where a0: "db a = Some a0"
    and fa: "set (friends ua) = set (friends a0) - (if a = me then {userId} else {})
                               - (if a = userId then {me} else {})" by blast
  from friends_after_remove [OF assms(1) b] obtain b0 where b0: "db b = Some b0"
    and fb: "set (friends ub) = set (friends b0) - (if b = me then {userId} else {})
                               - (if b = userId then {me} else {})" by blast
  from assms(2) a0 b0 have "b \<in> set (friends a0) \<longleftrightarrow> a \<in> set (friends b0)"
    unfolding symmetric_def by blast
  with fa fb show "b \<in> set (friends ua) \<longleftrightarrow> a \<in> set (friends ub)"
    by (simp split: if_splits) blast?
qed

text \<open>
  C6. Friend-list symmetry is preserved by every completed relationship operation: when
  B is in the friends of A exactly when A is in the friends of B for all existing users
  A and B, and one of send, accept, reject, cancel or remove friend answers with
  success, the same holds of the collection it leaves.
\<close>

theorem symmetry_preserved:
  assumes "symmetric db" and "perform opn db = Inr db'"
  shows "symmetric db'"
  using assms
  by (cases opn)
    (simp_all add: symmetric_send symmetric_accept symmetric_reject symmetric_cancel
      symmetric_remove)

theorem symmetry_preserved_witness:
  "symmetric requested \<and> perform (Accept 2 1) requested = Inr acquainted \<and>
   symmetric acquainted \<and> perform (Remove 1 2) acquainted = Inr strangers \<and>
   symmetric strangers"
proof -
  have s: "symmetric requested"
    by (auto simp: symmetric_def scenario_defs split: if_splits)
  have a: "perform (Accept 2 1) requested = Inr acquainted"
    by (auto simp: acceptRequest_def scenario_defs fun_eq_iff)
  have r: "perform (Remove 1 2) acquainted = Inr strangers"
    by (auto simp: removeFriend_def scenario_defs fun_eq_iff)
  from symmetry_preserved [OF s a] symmetry_preserved [OF _ r] s a r
  show ?thesis by simp
qed

section \<open>Properties of posts and likes\<close>

lemma splice1_simps [simp]:
  "splice1 0 (x # xs) = xs"
  "splice1 (Suc k) (x # xs) = x # splice1 k xs"
  by (simp_all add: splice1_def)

lemma findIndex_None: "findIndex P xs = None \<longleftrightarrow> (\<forall>x \<in> set xs. \<not> P x)"
  by (induction xs) auto

lemma findIndex_snoc:
  "\<forall>x \<in> set xs. \<not> P x \<Longrightarrow> P y \<Longrightarrow> findIndex P (xs @ [y]) = Some (length xs)"
  by (induction xs) auto

lemma splice1_snoc: "splice1 (length xs) (xs @ [y]) = xs"
  by (simp add: splice1_def)

lemma findIndex_Cons_Some:
  "findIndex P (a # xs) = Some k \<Longrightarrow>
     (P a \<and> k = 0) \<or> (\<not> P a \<and> (\<exists>j. findIndex P xs = Some j \<and> k = Suc j))"
  by (cases "P a") auto

lemma length_splice1:
  "findIndex P xs = Some k \<Longrightarrow> Suc (length (splice1 k xs)) = length xs"
proof (induction xs arbitrary: k)
  case Nil
  then show ?case by simp
next
  case (Cons a xs)
  from findIndex_Cons_Some [OF Cons.prems] show ?case
  proof
    assume "P a \<and> k = 0"
    then show ?thesis by simp
  next
    assume "\<not> P a \<and> (\<exists>j. findIndex P xs = Some j \<and> k = Suc j)"
    then obtain j where "findIndex P xs = Some j" "k = Suc j" by blast
    with Cons.IH [of j] show ?thesis by simp
  qed
qed

lemma likers_splice1:
  "findIndex (\<lambda>l. like_user l = u) xs = Some k \<Longrightarrow> distinct (map like_user xs) \<Longrightarrow>
     like_user ` set (splice1 k xs) = like_user ` set xs - {u}"
proof (induction xs arbitrary: k)
  case Nil
  then show ?case by simp
next
  case (Cons a xs)
  from Cons.prems(2) have d: "distinct (map like_user xs)"
    and a: "like_user a \<notin> like_user ` set xs" by simp_all
  from findIndex_Cons_Some [OF Cons.prems(1)] show ?case
  proof
    assume h: "like_user a = u \<and> k = 0"
    with a have "u \<notin> like_user ` set xs" by simp
    with h show ?thesis by simp
  next
    assume "like_user a \<noteq> u \<and>
      (\<exists>j. findIndex (\<lambda>l. like_user l = u) xs = Some j \<and> k = Suc j)"
    then obtain j where j: "findIndex (\<lambda>l. like_user l = u) xs = Some j" "k = Suc j"
      and n: "like_user a \<noteq> u" by blast
    from Cons.IH [OF j(1) d] have "like_user ` set (splice1 j xs) = like_user ` set xs - {u}" .
    with j(2) n show ?thesis by (simp add: insert_Diff_if)
  qed
qed

lemma update_first_same: "find P xs = Some p \<Longrightarrow> update_first P (\<lambda>_. p) xs = xs"
  by (induction xs) (auto split: if_splits)

lemma update_first_twice:
  "P p \<Longrightarrow> update_first P (\<lambda>_. q) (update_first P (\<lambda>_. p) xs) = update_first P (\<lambda>_. q) xs"
  by (induction xs) auto

lemma find_update_first_const:
  "find P xs = Some r \<Longrightarrow> P p \<Longrightarrow> find P (update_first P (\<lambda>_. p) xs) = Some p"
  by (induction xs) (auto split: if_splits)

lemma findById_save:
  "findById (post_id p) db = Some q \<Longrightarrow> findById (post_id p) (save p db) = Some p"
  unfolding findById_def save_def by (rule find_update_first_const) simp_all

lemma save_same: "findById i db = Some p \<Longrightarrow> save p db = db"
  unfolding findById_def save_def
  by (frule find_in_set) (simp add: update_first_same)

lemma save_save: "post_id q = post_id p \<Longrightarrow> save q (save p db) = save q db"
  unfolding save_def by (simp add: update_first_twice)

lemma findById_id: "findById i db = Some p \<Longrightarrow> post_id p = i"
  unfolding findById_def by (auto dest: find_in_set)

lemma find_update_first_other:
  "(\<And>x. P x \<Longrightarrow> \<not> Q x) \<Longrightarrow> \<not> Q p \<Longrightarrow> find Q (update_first P (\<lambda>_. p) xs) = find Q xs"
  by (induction xs) auto

lemma findById_save_other:
  "j \<noteq> post_id p \<Longrightarrow> findById j (save p db) = findById j db"
  unfolding findById_def save_def by (rule find_update_first_other) auto

lemma toggleLike_fresh:
  assumes "userId \<notin> like_user ` set ls"
  shows "toggleLike now userId ls = (True, ls @ [\<lparr>like_user = userId, like_createdAt = now\<rparr>])"
proof -
  from assms have "findIndex (\<lambda>l. like_user l = userId) ls = None"
    by (auto simp: findIndex_None)
  then show ?thesis by (simp add: toggleLike_def)
qed

lemma toggleLike_undo:
  assumes "userId \<notin> like_user ` set ls"
  shows "toggleLike now' userId (ls @ [\<lparr>like_user = userId, like_createdAt = now\<rparr>]) = (False, ls)"
proof -
  from assms have "findIndex (\<lambda>l. like_user l = userId)
      (ls @ [\<lparr>like_user = userId, like_createdAt = now\<rparr>]) = Some (length ls)"
    by (intro findIndex_snoc) auto
  then show ?thesis by (simp add: toggleLike_def splice1_snoc)
qed

lemma distinct_splice1:
  "distinct (map f xs) \<Longrightarrow> distinct (map f (splice1 k xs))"
proof (induction xs arbitrary: k)
  case Nil
  then show ?case by (simp add: splice1_def)
next
  case (Cons a xs)
  show ?case
  proof (cases k)
    case 0
    with Cons.prems show ?thesis by simp
  next
    case (Suc j)
    have "set (splice1 j xs) \<subseteq> set xs"
      by (auto simp: splice1_def dest: in_set_takeD in_set_dropD)
    with Cons.prems have "f a \<notin> f ` set (splice1 j xs)" by auto
    with Cons.IH [of j] Cons.prems Suc show ?thesis by simp
  qed
qed

lemma toggleLike_liked:
  assumes "userId \<in> like_user ` set ls"
  shows "\<exists>ls'. toggleLike now userId ls = (False, ls') \<and> Suc (length ls') = length ls \<and>
           (distinct (map like_user ls) \<longrightarrow>
              like_user ` set ls' = like_user ` set ls - {userId} \<and>
              distinct (map like_user ls'))"
proof -
  from assms have "findIndex (\<lambda>l. like_user l = userId) ls \<noteq> None"
    by (simp add: findIndex_None image_iff) blast
  then obtain k where k: "findIndex (\<lambda>l. like_user l = userId) ls = Some k"
    by blast
  have "toggleLike now userId ls = (False, splice1 k ls)"
    using k by (simp add: toggleLike_def)
  moreover have "Suc (length (splice1 k ls)) = length ls"
    using k by (rule length_splice1)
  moreover have "distinct (map like_user ls) \<longrightarrow>
      like_user ` set (splice1 k ls) = like_user ` set ls - {userId} \<and>
      distinct (map like_user (splice1 k ls))"
    using k by (simp add: likers_splice1 distinct_splice1)
  ultimately show ?thesis by blast
qed

lemma likePost_fresh:
  assumes "findById i db = Some p" and n: "me \<notin> like_user ` set (likes p)"
  shows "likePost t me i db =
           Inr (\<lparr>isLiked = True, likesCount = Suc (length (likes p))\<rparr>,
                save (p\<lparr>likes := likes p @ [\<lparr>like_user = me, like_createdAt = t\<rparr>]\<rparr>) db)"
  using assms(1) toggleLike_fresh [OF n, of t]
  by (simp add: likePost_def post_toggleLike_def)

lemma likePost_liked:
  assumes "findById i db = Some p" and "me \<in> like_user ` set (likes p)"
  shows "\<exists>ls. likePost t me i db =
             Inr (\<lparr>isLiked = False, likesCount = length ls\<rparr>, save (p\<lparr>likes := ls\<rparr>) db) \<and>
           Suc (length ls) = length (likes p) \<and>
           (distinct (map like_user (likes p)) \<longrightarrow>
              like_user ` set ls = like_user ` set (likes p) - {me} \<and>
              distinct (map like_user ls))"
proof -
  from toggleLike_liked [OF assms(2), of t] obtain ls where
    ls: "toggleLike t me (likes p) = (False, ls)"
    and rest: "Suc (length ls) = length (likes p)"
      "distinct (map like_user (likes p)) \<longrightarrow>
         like_user ` set ls = like_user ` set (likes p) - {me} \<and> distinct (map like_user ls)"
    by blast
  have "likePost t me i db =
      Inr (\<lparr>isLiked = False, likesCount = length ls\<rparr>, save (p\<lparr>likes := ls\<rparr>) db)"
    using assms(1) ls by (simp add: likePost_def post_toggleLike_def)
  with rest show ?thesis by blast
qed

lemma findById_save_likes:
  assumes "findById i db = Some p"
  shows "findById i (save (p\<lparr>likes := ls\<rparr>) db) = Some (p\<lparr>likes := ls\<rparr>)"
proof -
  have "post_id (p\<lparr>likes := ls\<rparr>) = i" using findById_id [OF assms] by simp
  with findById_save [of "p\<lparr>likes := ls\<rparr>" db p] assms show ?thesis by simp
qed

text \<open>
  C7, as amended. On a post that holds at most one like per user, which every toggle
  keeps so, toggling like twice in succession by the same user returns the original
  likesCount and the original set of likers, and each single toggle answers the new
  boolean state and the new count. When the user did not like the post before (here at
  most one like per user is not needed), the two toggles restore the stored post exactly
  and answer isLiked=true with the count plus one, then isLiked=false with the original
  count. When the user already liked it, they answer isLiked=false with the count minus
  one, then isLiked=true with the original count. On any post a single toggle answers
  the negation of the user's state before it and the length of the likes after it.
\<close>

theorem like_twice:
  assumes "findById i db = Some p"
  shows "(me \<notin> like_user ` set (likes p) \<longrightarrow>
            (let db1 = save (p\<lparr>likes := likes p @ [\<lparr>like_user = me, like_createdAt = t1\<rparr>]\<rparr>) db
             in likePost t1 me i db =
                  Inr (\<lparr>isLiked = True, likesCount = Suc (length (likes p))\<rparr>, db1) \<and>
                likePost t2 me i db1 =
                  Inr (\<lparr>isLiked = False, likesCount = length (likes p)\<rparr>, db))) \<and>
         (me \<in> like_user ` set (likes p) \<and> distinct (map like_user (likes p)) \<longrightarrow>
            (\<exists>n db1 db2 p2.
               likePost t1 me i db = Inr (\<lparr>isLiked = False, likesCount = n\<rparr>, db1) \<and>
               Suc n = length (likes p) \<and>
               likePost t2 me i db1 =
                 Inr (\<lparr>isLiked = True, likesCount = length (likes p)\<rparr>, db2) \<and>
               findById i db2 = Some p2 \<and>
               like_user ` set (likes p2) = like_user ` set (likes p))) \<and>
         (\<exists>r db' p'. likePost t1 me i db = Inr (r, db') \<and> findById i db' = Some p' \<and>
            isLiked r = (me \<notin> like_user ` set (likes p)) \<and>
            likesCount r = length (likes p') \<and>
            (distinct (map like_user (likes p)) \<longrightarrow>
               isLiked r = (me \<in> like_user ` set (likes p')) \<and>
               distinct (map like_user (likes p'))))"
proof (intro conjI impI)
  assume n: "me \<notin> like_user ` set (likes p)"
  let ?p1 = "p\<lparr>likes := likes p @ [\<lparr>like_user = me, like_createdAt = t1\<rparr>]\<rparr>"
  have pid: "post_id p = i" using assms by (rule findById_id)
  have f1: "findById i (save ?p1 db) = Some ?p1"
    using assms by (rule findById_save_likes)
  have restored: "save p (save ?p1 db) = db"
    using save_save [of p "?p1" db] save_same [OF assms] by simp
  have again: "likePost t2 me i (save ?p1 db) =
        Inr (\<lparr>isLiked = False, likesCount = length (likes p)\<rparr>, db)"
    using f1 toggleLike_undo [OF n, of t2 t1] restored
    by (simp add: likePost_def post_toggleLike_def)
  show "let db1 = save ?p1 db
        in likePost t1 me i db =
             Inr (\<lparr>isLiked = True, likesCount = Suc (length (likes p))\<rparr>, db1) \<and>
           likePost t2 me i db1 =
             Inr (\<lparr>isLiked = False, likesCount = length (likes p)\<rparr>, db)"
    unfolding Let_def using likePost_fresh [OF assms n, of t1] again by (rule conjI)
next
  assume h: "me \<in> like_user ` set (likes p) \<and> distinct (map like_user (likes p))"
  from likePost_liked [of i db p me t1] assms h obtain ls where
    a: "likePost t1 me i db =
          Inr (\<lparr>isLiked = False, likesCount = length ls\<rparr>, save (p\<lparr>likes := ls\<rparr>) db)"
    and len: "Suc (length ls) = length (likes p)"
    and ls: "like_user ` set ls = like_user ` set (likes p) - {me}"
    by blast
  let ?p1 = "p\<lparr>likes := ls\<rparr>"
  let ?p2 = "?p1\<lparr>likes := likes ?p1 @ [\<lparr>like_user = me, like_createdAt = t2\<rparr>]\<rparr>"
  have f1: "findById i (save ?p1 db) = Some ?p1"
    using assms by (rule findById_save_likes)
  have n: "me \<notin> like_user ` set (likes ?p1)" using ls by simp
  have b: "likePost t2 me i (save ?p1 db) =
      Inr (\<lparr>isLiked = True, likesCount = length (likes p)\<rparr>, save ?p2 (save ?p1 db))"
    using likePost_fresh [OF f1 n, of t2] len by simp
  have f2: "findById i (save ?p2 (save ?p1 db)) = Some ?p2"
    using f1 by (rule findById_save_likes)
  have c: "like_user ` set (likes ?p2) = like_user ` set (likes p)"
    using ls h by (simp add: insert_absorb)
  show "\<exists>n db1 db2 p2.
          likePost t1 me i db = Inr (\<lparr>isLiked = False, likesCount = n\<rparr>, db1) \<and>
          Suc n = length (likes p) \<and>
          likePost t2 me i db1 =
            Inr (\<lparr>isLiked = True, likesCount = length (likes p)\<rparr>, db2) \<and>
          findById i db2 = Some p2 \<and>
          like_user ` set (likes p2) = like_user ` set (likes p)"
  proof (intro exI conjI)
    show "likePost t1 me i db =
          Inr (\<lparr>isLiked = False, likesCount = length ls\<rparr>, save ?p1 db)" by (rule a)
    show "Suc (length ls) = length (likes p)" by (rule len)
    show "likePost t2 me i (save ?p1 db) =
      Inr (\<lparr>isLiked = True, likesCount = length (likes p)\<rparr>, save ?p2 (save ?p1 db))" by (rule b)
    show "findById i (save ?p2 (save ?p1 db)) = Some ?p2" by (rule f2)
    show "like_user ` set (likes ?p2) = like_user ` set (likes p)" by (rule c)
  qed
next
  show "\<exists>r db' p'. likePost t1 me i db = Inr (r, db') \<and> findById i db' = Some p' \<and>
            isLiked r = (me \<notin> like_user ` set (likes p)) \<and>
            likesCount r = length (likes p') \<and>
            (distinct (map like_user (likes p)) \<longrightarrow>
               isLiked r = (me \<in> like_user ` set (likes p')) \<and>
               distinct (map like_user (likes p')))"
  proof (cases "me \<in> like_user ` set (likes p)")
    case True
    from likePost_liked [OF assms True, of t1] obtain ls where
      a: "likePost t1 me i db =
            Inr (\<lparr>isLiked = False, likesCount = length ls\<rparr>, save (p\<lparr>likes := ls\<rparr>) db)"
      and ls: "distinct (map like_user (likes p)) \<longrightarrow>
                 like_user ` set ls = like_user ` set (likes p) - {me} \<and>
                 distinct (map like_user ls)"
      by blast
    have f1: "findById i (save (p\<lparr>likes := ls\<rparr>) db) = Some (p\<lparr>likes := ls\<rparr>)"
      using assms by (rule findById_save_likes)
    show ?thesis
    proof (intro exI conjI)
      show "likePost t1 me i db =
            Inr (\<lparr>isLiked = False, likesCount = length ls\<rparr>, save (p\<lparr>likes := ls\<rparr>) db)"
        by (rule a)
      show "findById i (save (p\<lparr>likes := ls\<rparr>) db) = Some (p\<lparr>likes := ls\<rparr>)" by (rule f1)
      show "isLiked \<lparr>isLiked = False, likesCount = length ls\<rparr> =
              (me \<notin> like_user ` set (likes p))" using True by simp
      show "likesCount \<lparr>isLiked = False, likesCount = length ls\<rparr> =
              length (likes (p\<lparr>likes := ls\<rparr>))" by simp
      show "distinct (map like_user (likes p)) \<longrightarrow>
              isLiked \<lparr>isLiked = False, likesCount = length ls\<rparr> =
              (me \<in> like_user ` set (likes (p\<lparr>likes := ls\<rparr>))) \<and>
              distinct (map like_user (likes (p\<lparr>likes := ls\<rparr>)))" using ls by simp
    qed
  next
    case False
    let ?p1 = "p\<lparr>likes := likes p @ [\<lparr>like_user = me, like_createdAt = t1\<rparr>]\<rparr>"
    have f1: "findById i (save ?p1 db) = Some ?p1"
      using assms by (rule findById_save_likes)
    show ?thesis
    proof (intro exI conjI)
      show "likePost t1 me i db =
            Inr (\<lparr>isLiked = True, likesCount = Suc (length (likes p))\<rparr>, save ?p1 db)"
        using assms False by (rule likePost_fresh)
      show "findById i (save ?p1 db) = Some ?p1" by (rule f1)
      show "isLiked \<lparr>isLiked = True, likesCount = Suc (length (likes p))\<rparr> =
              (me \<notin> like_user ` set (likes p))" using False by simp
      show "likesCount \<lparr>isLiked = True, likesCount = Suc (length (likes p))\<rparr> =
              length (likes ?p1)" by simp
      show "distinct (map like_user (likes p)) \<longrightarrow>
              isLiked \<lparr>isLiked = True, likesCount = Suc (length (likes p))\<rparr> =
              (me \<in> like_user ` set (likes ?p1)) \<and>
              distinct (map like_user (likes ?p1))" using False by simp
    qed
  qed
qed

theorem like_twice_witness:
  "likePost 60 2 7 [essay] =
     Inr (\<lparr>isLiked = True, likesCount = 1\<rparr>,
          [essay\<lparr>likes := [\<lparr>like_user = 2, like_createdAt = 60\<rparr>]\<rparr>]) \<and>
   likePost 70 2 7 [essay\<lparr>likes := [\<lparr>like_user = 2, like_createdAt = 60\<rparr>]\<rparr>] =
     Inr (\<lparr>isLiked = False, likesCount = 0\<rparr>, [essay])"
proof -
  have f: "findById 7 [essay] = Some essay"
    by (simp add: findById_def essay_def)
  have s: "save (essay\<lparr>likes := likes essay @ [\<lparr>like_user = 2, like_createdAt = 60\<rparr>]\<rparr>) [essay]
             = [essay\<lparr>likes := [\<lparr>like_user = 2, like_createdAt = 60\<rparr>]\<rparr>]"
    by (simp add: save_def essay_def)
  from like_twice [OF f, of 2 60 70] show ?thesis
    unfolding Let_def s by (simp add: essay_def)
qed

text \<open>
  C7 as stated fails. User 1 already likes post 7. The first toggle answers
  isLiked=false and the second, which returns the post to one like, answers
  isLiked=true, not false.
\<close>

theorem like_twice_counterexample:
  "likePost 60 1 7 [essay\<lparr>likes := [\<lparr>like_user = 1, like_createdAt = 50\<rparr>]\<rparr>] =
     Inr (\<lparr>isLiked = False, likesCount = 0\<rparr>, [essay]) \<and>
   likePost 70 1 7 [essay] =
     Inr (\<lparr>isLiked = True, likesCount = 1\<rparr>,
          [essay\<lparr>likes := [\<lparr>like_user = 1, like_createdAt = 70\<rparr>]\<rparr>])"
  by (simp add: likePost_def post_toggleLike_def toggleLike_def findById_def save_def
      splice1_def essay_def)

text \<open>
  C10. Fetching a post by id checks neither status nor visibility nor the caller: for
  every existing post, whatever its status, the answer is the post with its view
  counter incremented by one, the increment is stored and no other post changes; the
  answer is the same for every caller, authenticated or not; and the answer is 404
  "Post not found" exactly when no post has the id.
\<close>

theorem getPost_unrestricted:
  "(findById i db = None \<longrightarrow> getPost caller i comments db = Inl PostNotFound) \<and>
   (\<forall>p. findById i db = Some p \<longrightarrow>
      getPost caller i comments db =
        Inr ((p\<lparr>views := views p + 1\<rparr>, comments), save (p\<lparr>views := views p + 1\<rparr>) db) \<and>
      findById i (save (p\<lparr>views := views p + 1\<rparr>) db) = Some (p\<lparr>views := views p + 1\<rparr>) \<and>
      (\<forall>j. j \<noteq> i \<longrightarrow> findById j (save (p\<lparr>views := views p + 1\<rparr>) db) = findById j db)) \<and>
   (getPost caller i comments db = Inl PostNotFound \<longrightarrow> findById i db = None) \<and>
   getPost caller i comments db = getPost None i comments db"
proof (intro conjI allI impI)
  assume "findById i db = None"
  then show "getPost caller i comments db = Inl PostNotFound" by (simp add: getPost_def)
next
  fix p assume p: "findById i db = Some p"
  then show "getPost caller i comments db =
        Inr ((p\<lparr>views := views p + 1\<rparr>, comments), save (p\<lparr>views := views p + 1\<rparr>) db)"
    by (simp add: getPost_def incrementViews_def Let_def)
  have pid: "post_id (p\<lparr>views := views p + 1\<rparr>) = i" using findById_id [OF p] by simp
  from findById_save [of "p\<lparr>views := views p + 1\<rparr>" db p] p pid
  show "findById i (save (p\<lparr>views := views p + 1\<rparr>) db) = Some (p\<lparr>views := views p + 1\<rparr>)"
    by simp
  fix j assume "j \<noteq> i"
  with pid show "findById j (save (p\<lparr>views := views p + 1\<rparr>) db) = findById j db"
    by (simp add: findById_save_other)
next
  assume "getPost caller i comments db = Inl PostNotFound"
  then show "findById i db = None" by (simp add: getPost_def Let_def split: option.splits)
next
  show "getPost caller i comments db = getPost None i comments db" by (simp add: getPost_def)
qed

theorem getPost_unrestricted_witness:
  "getPost None 3 [''Nice post''] shelf =
     Inr ((upcoming\<lparr>views := 1\<rparr>, [''Nice post'']),
          [draft_note, overdue, upcoming\<lparr>views := 1\<rparr>, due_now, late]) \<and>
   getPost (Some 2) 1 [''Nice post''] shelf =
     Inr ((draft_note\<lparr>views := 1\<rparr>, [''Nice post'']),
          [draft_note\<lparr>views := 1\<rparr>, overdue, upcoming, due_now, late]) \<and>
   getPost None 9 [''Nice post''] shelf = Inl PostNotFound"
proof -
  have a: "findById 3 shelf = Some upcoming" and b: "findById 1 shelf = Some draft_note"
    and c: "findById 9 shelf = None"
    by (simp_all add: findById_def post_scenario_defs)
  have va: "upcoming\<lparr>views := views upcoming + 1\<rparr> = upcoming\<lparr>views := 1\<rparr>"
    and vb: "draft_note\<lparr>views := views draft_note + 1\<rparr> = draft_note\<lparr>views := 1\<rparr>"
    by (simp_all add: upcoming_def draft_note_def)
  have sa: "save (upcoming\<lparr>views := 1\<rparr>) shelf =
              [draft_note, overdue, upcoming\<lparr>views := 1\<rparr>, due_now, late]"
    and sb: "save (draft_note\<lparr>views := 1\<rparr>) shelf =
              [draft_note\<lparr>views := 1\<rparr>, overdue, upcoming, due_now, late]"
    by (simp_all add: save_def post_scenario_defs)
  from getPost_unrestricted [of 3 shelf None "[''Nice post'']"] a
  have 1: "getPost None 3 [''Nice post''] shelf =
      Inr ((upcoming\<lparr>views := views upcoming + 1\<rparr>, [''Nice post'']),
           save (upcoming\<lparr>views := views upcoming + 1\<rparr>) shelf)"
    by simp
  from getPost_unrestricted [of 1 shelf "Some 2" "[''Nice post'']"] b
  have 2: "getPost (Some 2) 1 [''Nice post''] shelf =
      Inr ((draft_note\<lparr>views := views draft_note + 1\<rparr>, [''Nice post'']),
           save (draft_note\<lparr>views := views draft_note + 1\<rparr>) shelf)"
    by simp
  from getPost_unrestricted [of 9 shelf None "[''Nice post'']"] c
  have 3: "getPost None 9 [''Nice post''] shelf = Inl PostNotFound"
    by simp
  from 1 2 3 show ?thesis unfolding va vb sa sb by (intro conjI)
qed

section \<open>Properties of the scheduled publisher\<close>

lemma save_as_map:
  "distinct (map post_id db) \<Longrightarrow>
     save p db = map (\<lambda>q. if post_id q = post_id p then p else q) db"
proof (induction db)
  case Nil
  then show ?case by (simp add: save_def)
next
  case (Cons x xs)
  show ?case
  proof (cases "post_id x = post_id p")
    case True
    with Cons.prems have "\<forall>q \<in> set xs. post_id q \<noteq> post_id p" by (auto simp: image_iff)
    then have "map (\<lambda>q. if post_id q = post_id p then p else q) xs = xs"
      by (intro map_idI) simp
    with True show ?thesis by (simp add: save_def)
  next
    case False
    with Cons show ?thesis by (simp add: save_def)
  qed
qed

lemma post_ids_save: "map post_id (save p db) = map post_id db"
  unfolding save_def by (induction db) auto

lemma fold_save:
  assumes "distinct (map post_id db)" and "distinct (map post_id ps)"
    and f: "\<And>p. post_id (f p) = post_id p"
  shows "fold (\<lambda>p. save (f p)) ps db =
           map (\<lambda>q. case find (\<lambda>p. post_id p = post_id q) ps of Some p \<Rightarrow> f p | None \<Rightarrow> q) db"
  using assms(1,2)
proof (induction ps arbitrary: db)
  case Nil
  then show ?case by simp
next
  case (Cons p ps)
  let ?g = "\<lambda>q. if post_id q = post_id p then f p else q"
  let ?h = "\<lambda>q. case find (\<lambda>p. post_id p = post_id q) ps of Some p \<Rightarrow> f p | None \<Rightarrow> q"
  have s: "save (f p) db = map ?g db"
    using save_as_map [OF Cons.prems(1), of "f p"] f by simp
  have d: "distinct (map post_id (save (f p) db))"
    using Cons.prems(1) by (simp add: post_ids_save)
  from Cons.prems(2) have dps: "distinct (map post_id ps)"
    and fresh: "\<forall>r \<in> set ps. post_id r \<noteq> post_id p" by (auto simp: image_iff)
  from fresh have none: "find (\<lambda>r. post_id r = post_id p) ps = None"
    by (simp add: find_None_iff)
  have "fold (\<lambda>p. save (f p)) (p # ps) db = fold (\<lambda>p. save (f p)) ps (save (f p) db)"
    by simp
  also have "\<dots> = map ?h (save (f p) db)"
    using Cons.IH [OF d dps] .
  also have "\<dots> = map (\<lambda>q. ?h (?g q)) db"
    by (simp add: s)
  also have "\<dots> = map (\<lambda>q. case find (\<lambda>p. post_id p = post_id q) (p # ps) of
                              Some p \<Rightarrow> f p | None \<Rightarrow> q) db"
  proof (rule map_cong [OF refl])
    fix q
    show "?h (?g q) = (case find (\<lambda>p. post_id p = post_id q) (p # ps) of
                              Some p \<Rightarrow> f p | None \<Rightarrow> q)"
      using none f by (cases "post_id q = post_id p") auto
  qed
  finally show ?case .
qed

lemma find_in_filter:
  "distinct (map post_id db) \<Longrightarrow> q \<in> set db \<Longrightarrow>
     find (\<lambda>p. post_id p = post_id q) (filter P db) = (if P q then Some q else None)"
proof (induction db)
  case Nil
  then show ?case by simp
next
  case (Cons x xs)
  show ?case
  proof (cases "q = x")
    case True
    with Cons.prems have "\<forall>r \<in> set xs. post_id r \<noteq> post_id q" by (auto simp: image_iff)
    then have "find (\<lambda>p. post_id p = post_id q) (filter P xs) = None"
      by (simp add: find_None_iff)
    with True show ?thesis by simp
  next
    case False
    with Cons.prems have "q \<in> set xs" and "post_id x \<noteq> post_id q" and "distinct (map post_id xs)"
      by (auto simp: image_iff)
    with Cons.IH show ?thesis by simp
  qed
qed

lemma publish_loop_all_persist:
  "\<forall>p \<in> set ps. persists (p\<lparr>status := Published, publishedAt := Some now\<rparr>) \<Longrightarrow>
     publish_loop persists (\<lambda>_. now) k ps (db, log) =
       Completed (fold (\<lambda>p. save (p\<lparr>status := Published, publishedAt := Some now\<rparr>)) ps db,
                  log @ map (\<lambda>p. PublishedScheduledPost (post_id p)) ps)"
  by (induction ps arbitrary: k db log) (simp_all add: Let_def)

lemma tick_frozen_clock:
  assumes "distinct (map post_id db)"
    and "\<forall>p \<in> set db. is_due now p \<longrightarrow> persists (p\<lparr>status := Published, publishedAt := Some now\<rparr>)"
  shows "tick persists (\<lambda>_. now) db =
           (map (\<lambda>p. if is_due now p then p\<lparr>status := Published, publishedAt := Some now\<rparr> else p) db,
            map (\<lambda>p. PublishedScheduledPost (post_id p)) (filter (is_due now) db))"
proof -
  let ?due = "filter (is_due now) db"
  have d: "distinct (map post_id ?due)"
    using assms(1) by (simp add: distinct_map_filter)
  have ok: "\<forall>p \<in> set ?due. persists (p\<lparr>status := Published, publishedAt := Some now\<rparr>)"
    using assms(2) by simp
  have "fold (\<lambda>p. save (p\<lparr>status := Published, publishedAt := Some now\<rparr>)) ?due db =
          map (\<lambda>q. case find (\<lambda>p. post_id p = post_id q) ?due of
                      Some p \<Rightarrow> p\<lparr>status := Published, publishedAt := Some now\<rparr> | None \<Rightarrow> q) db"
    using assms(1) d by (rule fold_save) simp
  also have "\<dots> = map (\<lambda>p. if is_due now p then p\<lparr>status := Published, publishedAt := Some now\<rparr> else p) db"
  proof (rule map_cong [OF refl])
    fix q assume "q \<in> set db"
    with assms(1) show "(case find (\<lambda>p. post_id p = post_id q) ?due of
                      Some p \<Rightarrow> p\<lparr>status := Published, publishedAt := Some now\<rparr> | None \<Rightarrow> q) =
                    (if is_due now q then q\<lparr>status := Published, publishedAt := Some now\<rparr> else q)"
      by (simp add: find_in_filter)
  qed
  finally have "fold (\<lambda>p. save (p\<lparr>status := Published, publishedAt := Some now\<rparr>)) ?due db =
      map (\<lambda>p. if is_due now p then p\<lparr>status := Published, publishedAt := Some now\<rparr> else p) db" .
  with publish_loop_all_persist [OF ok, of 1 db "[]"] show ?thesis
    by (simp add: tick_def getScheduledPostsToPublish_def)
qed

lemma findById_save_None:
  "findById j db \<noteq> None \<Longrightarrow> findById j (save p db) \<noteq> None"
proof (cases "j = post_id p")
  case True
  assume "findById j db \<noteq> None"
  then obtain q where "findById (post_id p) db = Some q" using True by auto
  from findById_save [OF this] True show ?thesis by simp
next
  case False
  assume "findById j db \<noteq> None"
  with False show ?thesis by (simp add: findById_save_other)
qed

lemma findById_member:
  "distinct (map post_id db) \<Longrightarrow> p \<in> set db \<Longrightarrow> findById (post_id p) db = Some p"
  using find_in_filter [of db p "\<lambda>_. True"] by (simp add: findById_def)

lemma publish_loop_completes:
  assumes "\<forall>p \<in> set ps. \<forall>t. persists (p\<lparr>status := Published, publishedAt := Some t\<rparr>)"
    and "distinct (map post_id ps)"
  shows "\<exists>db'. publish_loop persists clock k ps (db, log) =
                 Completed (db', log @ map (\<lambda>p. PublishedScheduledPost (post_id p)) ps) \<and>
               (\<forall>j. j \<notin> post_id ` set ps \<longrightarrow> findById j db' = findById j db) \<and>
               (\<forall>p \<in> set ps. findById (post_id p) db \<noteq> None \<longrightarrow>
                  (\<exists>i. k \<le> i \<and> i < k + length ps \<and>
                     findById (post_id p) db' =
                       Some (p\<lparr>status := Published, publishedAt := Some (clock i)\<rparr>)))"
  using assms
proof (induction ps arbitrary: k db log)
  case Nil
  then show ?case by simp
next
  case (Cons p ps)
  let ?p' = "p\<lparr>status := Published, publishedAt := Some (clock k)\<rparr>"
  let ?db1 = "save ?p' db"
  let ?log1 = "log @ [PublishedScheduledPost (post_id p)]"
  from Cons.prems have ok: "persists ?p'"
    and rest_ok: "\<forall>p \<in> set ps. \<forall>t. persists (p\<lparr>status := Published, publishedAt := Some t\<rparr>)"
    and d: "distinct (map post_id ps)"
    and fresh: "post_id p \<notin> post_id ` set ps"
    by simp_all
  from Cons.IH [OF rest_ok d, of "Suc k" ?db1 ?log1] obtain db' where
    run: "publish_loop persists clock (Suc k) ps (?db1, ?log1) =
            Completed (db', ?log1 @ map (\<lambda>p. PublishedScheduledPost (post_id p)) ps)"
    and same: "\<forall>j. j \<notin> post_id ` set ps \<longrightarrow> findById j db' = findById j ?db1"
    and stamped: "\<forall>q \<in> set ps. findById (post_id q) ?db1 \<noteq> None \<longrightarrow>
                  (\<exists>i. Suc k \<le> i \<and> i < Suc k + length ps \<and>
                     findById (post_id q) db' =
                       Some (q\<lparr>status := Published, publishedAt := Some (clock i)\<rparr>))"
    by blast
  have step: "publish_loop persists clock k (p # ps) (db, log) =
      Completed (db', log @ map (\<lambda>p. PublishedScheduledPost (post_id p)) (p # ps))"
    using ok run by (simp add: Let_def)
  have same': "\<forall>j. j \<notin> post_id ` set (p # ps) \<longrightarrow> findById j db' = findById j db"
    using same by (simp add: findById_save_other)
  have stamped': "\<forall>q \<in> set (p # ps). findById (post_id q) db \<noteq> None \<longrightarrow>
                  (\<exists>i. k \<le> i \<and> i < k + length (p # ps) \<and>
                     findById (post_id q) db' =
                       Some (q\<lparr>status := Published, publishedAt := Some (clock i)\<rparr>))"
  proof (intro ballI impI)
    fix q assume q: "q \<in> set (p # ps)" and ex: "findById (post_id q) db \<noteq> None"
    show "\<exists>i. k \<le> i \<and> i < k + length (p # ps) \<and>
            findById (post_id q) db' = Some (q\<lparr>status := Published, publishedAt := Some (clock i)\<rparr>)"
    proof (cases "q \<in> set ps")
      case True
      from ex have "findById (post_id q) ?db1 \<noteq> None" by (rule findById_save_None)
      with stamped True obtain i where "Suc k \<le> i" "i < Suc k + length ps"
        "findById (post_id q) db' = Some (q\<lparr>status := Published, publishedAt := Some (clock i)\<rparr>)"
        by blast
      then show ?thesis by (intro exI [of _ i]) simp
    next
      case False
      with q have qp: "q = p" by simp
      from ex qp obtain q0 where "findById (post_id ?p') db = Some q0" by auto
      from findById_save [OF this] have "findById (post_id p) ?db1 = Some ?p'" by simp
      with same fresh have "findById (post_id p) db' = Some ?p'" by simp
      with qp show ?thesis by (intro exI [of _ k]) simp
    qed
  qed
  from step same' stamped' show ?case by blast
qed

text \<open>
  C4. One publisher tick in which every save resolves, in a collection with unique ids.
  Every post that was scheduled with \<open>scheduledFor\<close> at or before the time of the
  query is stored as published, with \<open>publishedAt\<close> set to the reading of the clock
  taken for it during the tick; every other post (scheduled for later, or not
  scheduled) is stored unchanged; one line is logged for each published post. When the
  tick is one instant \<open>now\<close>, every reading being \<open>now\<close>, the collection after
  the tick is the collection before it with each due post published at \<open>now\<close>.
\<close>

theorem tick_publishes_due:
  assumes d: "distinct (map post_id db)"
    and ok: "\<forall>p \<in> set db. is_due (clock 0) p \<longrightarrow>
               (\<forall>t. persists (p\<lparr>status := Published, publishedAt := Some t\<rparr>))"
  shows "snd (tick persists clock db) =
           map (\<lambda>p. PublishedScheduledPost (post_id p)) (getScheduledPostsToPublish (clock 0) db) \<and>
         (\<forall>p \<in> set db. \<not> is_due (clock 0) p \<longrightarrow>
            findById (post_id p) (fst (tick persists clock db)) = Some p) \<and>
         (\<forall>p \<in> set db. is_due (clock 0) p \<longrightarrow>
            (\<exists>i. 1 \<le> i \<and> i \<le> length (getScheduledPostsToPublish (clock 0) db) \<and>
               findById (post_id p) (fst (tick persists clock db)) =
                 Some (p\<lparr>status := Published, publishedAt := Some (clock i)\<rparr>))) \<and>
         ((\<forall>i. clock i = now) \<longrightarrow>
            fst (tick persists clock db) =
              map (\<lambda>p. if is_due now p then p\<lparr>status := Published, publishedAt := Some now\<rparr>
                        else p) db)"
proof -
  let ?due = "getScheduledPostsToPublish (clock 0) db"
  have due_set: "set ?due = {p \<in> set db. is_due (clock 0) p}"
    by (auto simp: getScheduledPostsToPublish_def)
  have dd: "distinct (map post_id ?due)"
    using d unfolding getScheduledPostsToPublish_def by (rule distinct_map_filter)
  have oks: "\<forall>p \<in> set ?due. \<forall>t. persists (p\<lparr>status := Published, publishedAt := Some t\<rparr>)"
    using ok by (simp add: due_set)
  from publish_loop_completes [OF oks dd, of clock 1 db "[]"] obtain db' where
    run: "publish_loop persists clock 1 ?due (db, []) =
            Completed (db', map (\<lambda>p. PublishedScheduledPost (post_id p)) ?due)"
    and same: "\<forall>j. j \<notin> post_id ` set ?due \<longrightarrow> findById j db' = findById j db"
    and stamped: "\<forall>p \<in> set ?due. findById (post_id p) db \<noteq> None \<longrightarrow>
                  (\<exists>i. 1 \<le> i \<and> i < 1 + length ?due \<and>
                     findById (post_id p) db' =
                       Some (p\<lparr>status := Published, publishedAt := Some (clock i)\<rparr>))"
    by auto
  have t: "tick persists clock db = (db', map (\<lambda>p. PublishedScheduledPost (post_id p)) ?due)"
    using run by (simp add: tick_def)
  have others: "\<forall>p \<in> set db. \<not> is_due (clock 0) p \<longrightarrow> findById (post_id p) db' = Some p"
  proof (intro ballI impI)
    fix p assume p: "p \<in> set db" and n: "\<not> is_due (clock 0) p"
    have "post_id p \<notin> post_id ` set ?due"
    proof
      assume "post_id p \<in> post_id ` set ?due"
      then obtain q where q: "q \<in> set db" "is_due (clock 0) q" "post_id q = post_id p"
        by (auto simp: due_set)
      from d q(1) p q(3) have "q = p"
        by (metis findById_member option.inject)
      with q(2) n show False by simp
    qed
    with same have "findById (post_id p) db' = findById (post_id p) db" by simp
    with d p show "findById (post_id p) db' = Some p" by (simp add: findById_member)
  qed
  have dues: "\<forall>p \<in> set db. is_due (clock 0) p \<longrightarrow>
            (\<exists>i. 1 \<le> i \<and> i \<le> length ?due \<and>
               findById (post_id p) db' =
                 Some (p\<lparr>status := Published, publishedAt := Some (clock i)\<rparr>))"
  proof (intro ballI impI)
    fix p assume p: "p \<in> set db" and due: "is_due (clock 0) p"
    then have "p \<in> set ?due" by (simp add: due_set)
    moreover from d p have "findById (post_id p) db \<noteq> None" by (simp add: findById_member)
    ultimately obtain i where "1 \<le> i" "i < 1 + length ?due"
      "findById (post_id p) db' = Some (p\<lparr>status := Published, publishedAt := Some (clock i)\<rparr>)"
      using stamped by blast
    then show "\<exists>i. 1 \<le> i \<and> i \<le> length ?due \<and>
               findById (post_id p) db' =
                 Some (p\<lparr>status := Published, publishedAt := Some (clock i)\<rparr>)"
      by (intro exI [of _ i]) simp
  qed
  have frozen: "(\<forall>i. clock i = now) \<longrightarrow>
            fst (tick persists clock db) =
              map (\<lambda>p. if is_due now p then p\<lparr>status := Published, publishedAt := Some now\<rparr>
                        else p) db"
  proof
    assume "\<forall>i. clock i = now"
    then have c: "clock = (\<lambda>_. now)" by (simp add: fun_eq_iff)
    with ok have "\<forall>p \<in> set db. is_due now p \<longrightarrow>
        persists (p\<lparr>status := Published, publishedAt := Some now\<rparr>)" by simp
    from tick_frozen_clock [OF d this] show "fst (tick persists clock db) =
              map (\<lambda>p. if is_due now p then p\<lparr>status := Published, publishedAt := Some now\<rparr>
                        else p) db"
      unfolding c by simp
  qed
  from others dues frozen show ?thesis unfolding t by simp
qed

theorem tick_publishes_due_witness:
  "fst (tick (\<lambda>_. True) (\<lambda>_. 100) shelf) =
     [draft_note, overdue\<lparr>status := Published, publishedAt := Some 100\<rparr>, upcoming,
      due_now\<lparr>status := Published, publishedAt := Some 100\<rparr>,
      late\<lparr>status := Published, publishedAt := Some 100\<rparr>] \<and>
   snd (tick (\<lambda>_. True) ticking shelf) =
     [PublishedScheduledPost 2, PublishedScheduledPost 4, PublishedScheduledPost 5] \<and>
   findById 3 (fst (tick (\<lambda>_. True) ticking shelf)) = Some upcoming"
proof -
  have d: "distinct (map post_id shelf)"
    by (simp add: post_scenario_defs)
  have due: "is_due 100 overdue" "is_due 100 due_now" "is_due 100 late"
    "\<not> is_due 100 draft_note" "\<not> is_due 100 upcoming"
    by (simp_all add: is_due_def post_scenario_defs)
  have q: "getScheduledPostsToPublish 100 shelf = [overdue, due_now, late]"
    using due by (simp add: getScheduledPostsToPublish_def shelf_def)
  have ids: "post_id overdue = 2" "post_id due_now = 4" "post_id late = 5" "post_id upcoming = 3"
    by (simp_all add: post_scenario_defs)
  have "fst (tick (\<lambda>_. True) (\<lambda>_. 100) shelf) =
      map (\<lambda>p. if is_due 100 p then p\<lparr>status := Published, publishedAt := Some 100\<rparr> else p) shelf"
    using tick_publishes_due [of shelf "\<lambda>_. 100" "\<lambda>_. True" 100] d by simp
  then have 1: "fst (tick (\<lambda>_. True) (\<lambda>_. 100) shelf) =
     [draft_note, overdue\<lparr>status := Published, publishedAt := Some 100\<rparr>, upcoming,
      due_now\<lparr>status := Published, publishedAt := Some 100\<rparr>,
      late\<lparr>status := Published, publishedAt := Some 100\<rparr>]"
    using due by (simp add: shelf_def)
  have m: "upcoming \<in> set shelf" by (simp add: shelf_def)
  have "snd (tick (\<lambda>_. True) ticking shelf) =
      map (\<lambda>p. PublishedScheduledPost (post_id p)) (getScheduledPostsToPublish (ticking 0) shelf) \<and>
    (\<forall>p \<in> set shelf. \<not> is_due (ticking 0) p \<longrightarrow>
       findById (post_id p) (fst (tick (\<lambda>_. True) ticking shelf)) = Some p)"
    using tick_publishes_due [of shelf ticking "\<lambda>_. True" 100] d by simp
  then have 2: "snd (tick (\<lambda>_. True) ticking shelf) =
     [PublishedScheduledPost 2, PublishedScheduledPost 4, PublishedScheduledPost 5]"
    and 3: "findById 3 (fst (tick (\<lambda>_. True) ticking shelf)) = Some upcoming"
    using q due(5) ids m by (auto simp: ticking_def)
  from 1 2 3 show ?thesis by (intro conjI)
qed

lemma publish_loop_throws:
  assumes "\<forall>p \<in> set before. \<forall>t. persists (p\<lparr>status := Published, publishedAt := Some t\<rparr>)"
    and "\<forall>t. \<not> persists (bad\<lparr>status := Published, publishedAt := Some t\<rparr>)"
  shows "\<exists>db'. publish_loop persists clock k (before @ bad # rest) (db, log) =
                 Threw (db', log @ map (\<lambda>p. PublishedScheduledPost (post_id p)) before) \<and>
               (\<forall>j. j \<notin> post_id ` set before \<longrightarrow> findById j db' = findById j db) \<and>
               (\<forall>p \<in> set before. findById (post_id p) db \<noteq> None \<longrightarrow>
                  (\<exists>q. findById (post_id p) db' = Some q \<and> status q = Published))"
  using assms(1)
proof (induction before arbitrary: k db log)
  case Nil
  with assms(2) show ?case by (simp add: Let_def)
next
  case (Cons p before)
  let ?p' = "p\<lparr>status := Published, publishedAt := Some (clock k)\<rparr>"
  let ?db1 = "save ?p' db"
  let ?log1 = "log @ [PublishedScheduledPost (post_id p)]"
  from Cons.prems have ok: "persists ?p'"
    and rest_ok: "\<forall>p \<in> set before. \<forall>t. persists (p\<lparr>status := Published, publishedAt := Some t\<rparr>)"
    by simp_all
  from Cons.IH [OF rest_ok, of "Suc k" ?db1 ?log1] obtain db' where
    run: "publish_loop persists clock (Suc k) (before @ bad # rest) (?db1, ?log1) =
            Threw (db', ?log1 @ map (\<lambda>p. PublishedScheduledPost (post_id p)) before)"
    and same: "\<forall>j. j \<notin> post_id ` set before \<longrightarrow> findById j db' = findById j ?db1"
    and marked: "\<forall>q \<in> set before. findById (post_id q) ?db1 \<noteq> None \<longrightarrow>
                  (\<exists>r. findById (post_id q) db' = Some r \<and> status r = Published)"
    by blast
  have step: "publish_loop persists clock k ((p # before) @ bad # rest) (db, log) =
      Threw (db', log @ map (\<lambda>p. PublishedScheduledPost (post_id p)) (p # before))"
    using ok run by (simp add: Let_def)
  have same': "\<forall>j. j \<notin> post_id ` set (p # before) \<longrightarrow> findById j db' = findById j db"
    using same by (simp add: findById_save_other)
  have marked': "\<forall>q \<in> set (p # before). findById (post_id q) db \<noteq> None \<longrightarrow>
                  (\<exists>r. findById (post_id q) db' = Some r \<and> status r = Published)"
  proof (intro ballI impI)
    fix q assume q: "q \<in> set (p # before)" and ex: "findById (post_id q) db \<noteq> None"
    from ex have ex1: "findById (post_id q) ?db1 \<noteq> None" by (rule findById_save_None)
    show "\<exists>r. findById (post_id q) db' = Some r \<and> status r = Published"
    proof (cases "post_id q \<in> post_id ` set before")
      case True
      then obtain q' where "q' \<in> set before" "post_id q' = post_id q" by auto
      with marked ex1 show ?thesis by metis
    next
      case False
      with q have qp: "q = p" by auto
      from ex qp obtain q0 where "findById (post_id ?p') db = Some q0" by auto
      from findById_save [OF this] have "findById (post_id p) ?db1 = Some ?p'" by simp
      with same False qp show ?thesis by simp
    qed
  qed
  from step same' marked' show ?case by blast
qed

text \<open>
  C5, as amended. Within one publisher tick the due posts are saved in the order of the
  query and the first save that fails ends the tick: in a collection with unique ids,
  when the saves of the posts before one post of the batch resolve and the save of that
  post rejects, one line is logged for each earlier post, which is stored as published,
  the failure is logged once, and the failing post and every post after it in the batch
  are stored unchanged, still scheduled, whether or not their saves would resolve.
\<close>

theorem tick_stops_at_failure:
  assumes "distinct (map post_id db)"
    and "getScheduledPostsToPublish (clock 0) db = before @ bad # rest"
    and "\<forall>p \<in> set before. \<forall>t. persists (p\<lparr>status := Published, publishedAt := Some t\<rparr>)"
    and "\<forall>t. \<not> persists (bad\<lparr>status := Published, publishedAt := Some t\<rparr>)"
  shows "snd (tick persists clock db) =
           map (\<lambda>p. PublishedScheduledPost (post_id p)) before @ [ErrorInScheduledPostPublisher] \<and>
         (\<forall>p \<in> set (bad # rest).
            findById (post_id p) (fst (tick persists clock db)) = Some p \<and> status p = Scheduled) \<and>
         (\<forall>p \<in> set before.
            \<exists>q. findById (post_id p) (fst (tick persists clock db)) = Some q \<and> status q = Published)"
proof -
  from publish_loop_throws [OF assms(3,4), of clock 1 rest db "[]"] obtain db' where
    run: "publish_loop persists clock 1 (before @ bad # rest) (db, []) =
            Threw (db', map (\<lambda>p. PublishedScheduledPost (post_id p)) before)"
    and same: "\<forall>j. j \<notin> post_id ` set before \<longrightarrow> findById j db' = findById j db"
    and marked: "\<forall>p \<in> set before. findById (post_id p) db \<noteq> None \<longrightarrow>
                  (\<exists>q. findById (post_id p) db' = Some q \<and> status q = Published)"
    by auto
  have t: "tick persists clock db =
      (db', map (\<lambda>p. PublishedScheduledPost (post_id p)) before @ [ErrorInScheduledPostPublisher])"
    using run assms(2) by (simp add: tick_def)
  have batch: "set (before @ bad # rest) \<subseteq> set db"
    and due: "\<forall>p \<in> set (before @ bad # rest). is_due (clock 0) p"
    using assms(2) [symmetric] by (auto simp: getScheduledPostsToPublish_def)
  have "distinct (map post_id (before @ bad # rest))"
    using assms(1) unfolding assms(2) [symmetric] getScheduledPostsToPublish_def
    by (rule distinct_map_filter)
  then have apart: "\<forall>p \<in> set (bad # rest). post_id p \<notin> post_id ` set before"
    by (auto simp: image_iff)
  have untouched: "\<forall>p \<in> set (bad # rest).
      findById (post_id p) db' = Some p \<and> status p = Scheduled"
  proof
    fix p assume p: "p \<in> set (bad # rest)"
    with batch have "p \<in> set db" by auto
    with assms(1) have "findById (post_id p) db = Some p" by (rule findById_member)
    moreover from p apart same have "findById (post_id p) db' = findById (post_id p) db" by blast
    moreover from p due have "status p = Scheduled" by (auto simp: is_due_def)
    ultimately show "findById (post_id p) db' = Some p \<and> status p = Scheduled" by simp
  qed
  have earlier: "\<forall>p \<in> set before. \<exists>q. findById (post_id p) db' = Some q \<and> status q = Published"
  proof
    fix p assume p: "p \<in> set before"
    with batch have "p \<in> set db" by auto
    with assms(1) have "findById (post_id p) db = Some p" by (rule findById_member)
    with marked p show "\<exists>q. findById (post_id p) db' = Some q \<and> status q = Published" by simp
  qed
  from untouched earlier show ?thesis unfolding t by simp
qed

theorem tick_stops_at_failure_witness:
  "snd (tick persists_unless_4 ticking shelf) =
     [PublishedScheduledPost 2, ErrorInScheduledPostPublisher] \<and>
   findById 4 (fst (tick persists_unless_4 ticking shelf)) = Some due_now \<and>
   findById 5 (fst (tick persists_unless_4 ticking shelf)) = Some late"
proof -
  have d: "distinct (map post_id shelf)"
    by (simp add: post_scenario_defs)
  have q: "getScheduledPostsToPublish (ticking 0) shelf = [overdue] @ due_now # [late]"
    by (simp add: getScheduledPostsToPublish_def is_due_def ticking_def post_scenario_defs)
  have ok: "\<forall>p \<in> set [overdue]. \<forall>t.
      persists_unless_4 (p\<lparr>status := Published, publishedAt := Some t\<rparr>)"
    by (simp add: overdue_def persists_unless_4_def)
  have bad: "\<forall>t. \<not> persists_unless_4 (due_now\<lparr>status := Published, publishedAt := Some t\<rparr>)"
    by (simp add: due_now_def persists_unless_4_def)
  have ids: "post_id due_now = 4" "post_id late = 5"
    by (simp_all add: due_now_def late_def)
  from tick_stops_at_failure [of shelf ticking "[overdue]" due_now "[late]" persists_unless_4,
      OF d q ok bad] ids
  show ?thesis by (simp add: overdue_def)
qed

text \<open>
  C5 as stated fails. Posts 2, 4 and 5 are due and the save of post 4 rejects. The tick
  publishes post 2 and logs the failure, and post 5, whose save would resolve, is not
  published: it is stored as it was, still scheduled.
\<close>

theorem tick_abandons_batch_counterexample:
  "getScheduledPostsToPublish (ticking 0) shelf = [overdue, due_now, late] \<and>
   tick persists_unless_4 ticking shelf =
     ([draft_note, overdue\<lparr>status := Published, publishedAt := Some 101\<rparr>, upcoming,
       due_now, late],
      [PublishedScheduledPost 2, ErrorInScheduledPostPublisher]) \<and>
   status late = Scheduled \<and>
   persists_unless_4 (late\<lparr>status := Published, publishedAt := Some 103\<rparr>)"
  by (simp add: tick_def getScheduledPostsToPublish_def is_due_def save_def ticking_def
      persists_unless_4_def post_scenario_defs)

section \<open>Properties of the message route\<close>

lemma split_at_trailing:
  "xs = rev (dropWhile P (rev xs)) @ rev (takeWhile P (rev xs))"
proof -
  have "rev (rev (dropWhile P (rev xs)) @ rev (takeWhile P (rev xs))) = rev xs"
    by simp
  then show ?thesis by (metis rev_rev_ident)
qed

lemma dropWhile_trimmed:
  "dropWhile P (rev (dropWhile P (rev (dropWhile P s)))) = rev (dropWhile P (rev (dropWhile P s)))"
proof (cases "rev (dropWhile P (rev (dropWhile P s)))")
  case Nil
  show ?thesis unfolding Nil by simp
next
  case (Cons b bs)
  with split_at_trailing [of "dropWhile P s" P]
  have "dropWhile P s = b # (bs @ rev (takeWhile P (rev (dropWhile P s))))"
    by simp
  then have "\<not> P b" by (metis hd_dropWhile list.sel(1) list.distinct(1))
  then show ?thesis unfolding Cons by simp
qed

lemma trim_trim: "trim (trim s) = trim s"
  unfolding trim_def by (simp add: dropWhile_trimmed)

text \<open>
  C9, as amended. Sending a direct message succeeds only when the recipient exists and
  the recipient's id is in the friends of the sender's document; the friends of the
  recipient are not consulted. Content that is empty as sent, or that is longer than
  2000 characters after trimming, is answered 400 "Validation failed" before any other
  check. For content
  that is non-empty after trimming and at most 2000 characters, the answer is 404 when
  the recipient does not exist, 403 when the recipient exists and is not in the sender's
  friends, and otherwise success: a new unread message is created with the given sender
  and recipient and the trimmed content.
\<close>

theorem sendMessage_outcomes:
  "(\<forall>r. sendMessage now me req_user userId body users messages = Inr r \<longrightarrow>
      userId \<in> set (friends req_user) \<and> users userId \<noteq> None \<and>
      r = (\<lparr>sender = me, recipient = userId, content = trim body, read = False,
             readAt = None, createdAt = now\<rparr>,
           messages @ [\<lparr>sender = me, recipient = userId, content = trim body, read = False,
             readAt = None, createdAt = now\<rparr>])) \<and>
   (body = [] \<or> 2000 < length (trim body) \<longrightarrow>
      sendMessage now me req_user userId body users messages = Inl ValidationFailed) \<and>
   (trim body \<noteq> [] \<and> length (trim body) \<le> 2000 \<longrightarrow>
      (users userId = None \<longrightarrow>
         sendMessage now me req_user userId body users messages = Inl RecipientNotFound) \<and>
      (users userId \<noteq> None \<and> userId \<notin> set (friends req_user) \<longrightarrow>
         sendMessage now me req_user userId body users messages = Inl OnlyMessageFriends) \<and>
      (users userId \<noteq> None \<and> userId \<in> set (friends req_user) \<longrightarrow>
         sendMessage now me req_user userId body users messages =
           Inr (\<lparr>sender = me, recipient = userId, content = trim body, read = False,
                  readAt = None, createdAt = now\<rparr>,
                messages @ [\<lparr>sender = me, recipient = userId, content = trim body, read = False,
                  readAt = None, createdAt = now\<rparr>]))) \<and>
   (\<forall>recipient_doc fs. users userId = Some recipient_doc \<longrightarrow>
      sendMessage now me req_user userId body
        (users(userId \<mapsto> recipient_doc\<lparr>friends := fs\<rparr>)) messages =
      sendMessage now me req_user userId body users messages)"
proof -
  have nonempty: "trim body \<noteq> [] \<Longrightarrow> body \<noteq> []"
    by (auto simp: trim_def)
  show ?thesis
    using nonempty
    by (auto simp: sendMessage_def validate_content_def Message_create_def Let_def trim_trim
        split: option.splits if_splits)
qed

theorem sendMessage_outcomes_witness:
  "sendMessage 100 1 \<lparr>friends = [2], friendRequests = []\<rparr> 2 '' hello '' acquainted [] =
     Inr (\<lparr>sender = 1, recipient = 2, content = ''hello'', read = False, readAt = None,
            createdAt = 100\<rparr>,
          [\<lparr>sender = 1, recipient = 2, content = ''hello'', read = False, readAt = None,
             createdAt = 100\<rparr>]) \<and>
   sendMessage 100 1 newcomer 2 ''hello'' strangers [] = Inl OnlyMessageFriends \<and>
   sendMessage 100 1 newcomer 3 ''hello'' strangers [] = Inl RecipientNotFound"
proof -
  have t: "trim '' hello '' = ''hello''" and t': "trim ''hello'' = ''hello''"
    by (simp_all add: trim_def js_whitespace_def)
  have v: "trim '' hello '' \<noteq> [] \<and> length (trim '' hello '') \<le> 2000"
    and v': "trim ''hello'' \<noteq> [] \<and> length (trim ''hello'') \<le> 2000"
    unfolding t t' by simp_all
  have friend: "acquainted 2 \<noteq> None \<and> 2 \<in> set (friends \<lparr>friends = [2], friendRequests = []\<rparr>)"
    by (simp add: acquainted_def)
  have stranger: "strangers 2 \<noteq> None \<and> 2 \<notin> set (friends newcomer)"
    by (simp add: strangers_def newcomer_def)
  have absent: "strangers 3 = None"
    by (simp add: strangers_def)
  note valid = conjunct1 [OF conjunct2 [OF conjunct2]]
  have 1: "sendMessage 100 1 \<lparr>friends = [2], friendRequests = []\<rparr> 2 '' hello '' acquainted [] =
     Inr (\<lparr>sender = 1, recipient = 2, content = trim '' hello '', read = False, readAt = None,
            createdAt = 100\<rparr>,
          [] @ [\<lparr>sender = 1, recipient = 2, content = trim '' hello '', read = False,
             readAt = None, createdAt = 100\<rparr>])"
    using mp [OF valid [OF sendMessage_outcomes
          [of 100 1 "\<lparr>friends = [2], friendRequests = []\<rparr>" 2 "'' hello ''" acquainted "[]"]] v]
      friend
    by blast
  have 2: "sendMessage 100 1 newcomer 2 ''hello'' strangers [] = Inl OnlyMessageFriends"
    using mp [OF valid [OF sendMessage_outcomes
          [of 100 1 newcomer 2 "''hello''" strangers "[]"]] v'] stranger
    by blast
  have 3: "sendMessage 100 1 newcomer 3 ''hello'' strangers [] = Inl RecipientNotFound"
    using mp [OF valid [OF sendMessage_outcomes
          [of 100 1 newcomer 3 "''hello''" strangers "[]"]] v'] absent
    by blast
  from 1 2 3 show ?thesis unfolding t by simp
qed

text \<open>
  C9 as stated fails. User 2 exists and is not in the friends of user 1, yet an empty
  message from 1 to 2 is answered 400 "Validation failed", not 403; and the message that
  user 1 sends to the friend 2 with the content " hello " is stored with the content
  "hello".
\<close>

theorem sendMessage_counterexample:
  "strangers 2 = Some newcomer \<and> friends newcomer = [] \<and>
   sendMessage 100 1 newcomer 2 [] strangers [] = Inl ValidationFailed \<and>
   status_code ValidationFailed = 400 \<and>
   sendMessage 100 1 \<lparr>friends = [2], friendRequests = []\<rparr> 2 '' hello '' acquainted [] =
     Inr (\<lparr>sender = 1, recipient = 2, content = ''hello'', read = False, readAt = None,
            createdAt = 100\<rparr>,
          [\<lparr>sender = 1, recipient = 2, content = ''hello'', read = False, readAt = None,
             createdAt = 100\<rparr>])"
  by (simp add: sendMessage_def validate_content_def Message_create_def trim_def
      js_whitespace_def scenario_defs)

end
